theory Spec2Isabelle
  imports Main "HOL-Library.Sublist" "HOL-Library.Multiset"
begin

section \<open>Python strings and the POSIX path functions the scripts call\<close>

text \<open>
  The link tooling of the repository (\<^verbatim>\<open>scripts/link_campaign.py\<close> and
  \<^verbatim>\<open>scripts/simple_link_campaign.py\<close>) works on Python strings and on the functions of
  \<^verbatim>\<open>os.path\<close>. Strings are modelled as \<^typ>\<open>string\<close>; the functions of \<^verbatim>\<open>os.path\<close> follow
  CPython's \<^verbatim>\<open>posixpath\<close> module, statement by statement. \<^verbatim>\<open>str.lower\<close> is modelled on ASCII
  letters (paths of the corpus are taken to be ASCII).
\<close>

datatype py_error = ValueError | KeyError | IOError

text \<open>\<^verbatim>\<open>s.split(c)\<close> for a one-character separator: never the empty list.\<close>

fun py_split :: "char \<Rightarrow> string \<Rightarrow> string list" where
  "py_split c [] = [[]]"
| "py_split c (x # xs) =
     (if x = c then [] # py_split c xs
      else (case py_split c xs of [] \<Rightarrow> [[x]] | w # ws \<Rightarrow> (x # w) # ws))"

text \<open>\<^verbatim>\<open>sep.join(xs)\<close>.\<close>

fun sep_join :: "string \<Rightarrow> string list \<Rightarrow> string" where
  "sep_join sep [] = []"
| "sep_join sep [x] = x"
| "sep_join sep (x # y # ys) = x @ sep @ sep_join sep (y # ys)"

definition lower_char :: "char \<Rightarrow> char" where
  "lower_char c =
     (let n = (of_char c :: nat) in if 65 \<le> n \<and> n \<le> 90 then char_of (n + 32) else c)"

definition lower :: "string \<Rightarrow> string" where
  "lower s = map lower_char s"

text \<open>\<^verbatim>\<open>s.startswith(p)\<close> is \<^const>\<open>prefix\<close>, \<^verbatim>\<open>s.endswith(p)\<close> is \<^const>\<open>suffix\<close>.\<close>

abbreviation startswith :: "string \<Rightarrow> string \<Rightarrow> bool" where
  "startswith s p \<equiv> prefix p s"

abbreviation endswith :: "string \<Rightarrow> string \<Rightarrow> bool" where
  "endswith s p \<equiv> suffix p s"

text \<open>\<^verbatim>\<open>s.rstrip('/')\<close>.\<close>

definition rstrip_sep :: "string \<Rightarrow> string" where
  "rstrip_sep s = rev (dropWhile (\<lambda>c. c = CHR ''/'') (rev s))"

text \<open>
  \<^verbatim>\<open>posixpath.basename\<close>: the part after the last slash.
  \<^verbatim>\<open>i = p.rfind('/') + 1; return p[i:]\<close>
\<close>

definition basename :: "string \<Rightarrow> string" where
  "basename p = rev (takeWhile (\<lambda>c. c \<noteq> CHR ''/'') (rev p))"

text \<open>
  \<^verbatim>\<open>posixpath.dirname\<close>:
  \<^verbatim>\<open>i = p.rfind('/') + 1; head = p[:i]
  if head and head != '/'*len(head): head = head.rstrip('/')
  return head\<close>
\<close>

definition dirname :: "string \<Rightarrow> string" where
  "dirname p =
     (let head = rev (dropWhile (\<lambda>c. c \<noteq> CHR ''/'') (rev p))
      in if head \<noteq> [] \<and> head \<noteq> replicate (length head) CHR ''/'' then rstrip_sep head
         else head)"

text \<open>
  \<^verbatim>\<open>posixpath.join(a, b)\<close> with two arguments:
  \<^verbatim>\<open>if b.startswith('/'): path = b
  elif not path or path.endswith('/'): path += b
  else: path += '/' + b\<close>
\<close>

definition join :: "string \<Rightarrow> string \<Rightarrow> string" where
  "join a b =
     (if startswith b ''/'' then b
      else if a = [] \<or> endswith a ''/'' then a @ b
      else a @ ''/'' @ b)"

text \<open>
  \<^verbatim>\<open>posixpath.normpath\<close>. One round of its loop over the components:
  \<^verbatim>\<open>if comp in ('', '.'): continue
  if (comp != '..' or (not initial_slashes and not new_comps) or
       (new_comps and new_comps[-1] == '..')):
      new_comps.append(comp)
  elif new_comps:
      new_comps.pop()\<close>
\<close>

definition norm_step :: "bool \<Rightarrow> string list \<Rightarrow> string \<Rightarrow> string list" where
  "norm_step initial new_comps component =
     (if component = [] \<or> component = ''.'' then new_comps
      else if component \<noteq> ''..'' \<or> (\<not> initial \<and> new_comps = [])
              \<or> (new_comps \<noteq> [] \<and> last new_comps = ''..'')
           then new_comps @ [component]
      else if new_comps \<noteq> [] then butlast new_comps
      else new_comps)"

definition initial_slashes :: "string \<Rightarrow> nat" where
  "initial_slashes path =
     (if startswith path ''/''
      then (if startswith path ''//'' \<and> \<not> startswith path ''///'' then 2 else 1)
      else 0)"

definition normpath :: "string \<Rightarrow> string" where
  "normpath path =
     (if path = [] then ''.''
      else
        let n = initial_slashes path;
            comps = foldl (norm_step (n \<noteq> 0)) [] (py_split CHR ''/'' path);
            p = replicate n CHR ''/'' @ sep_join ''/'' comps
        in if p = [] then ''.'' else p)"

text \<open>
  \<^verbatim>\<open>posixpath.abspath\<close>; the working directory of the process is the parameter \<open>cwd\<close>.
\<close>

definition abspath :: "string \<Rightarrow> string \<Rightarrow> string" where
  "abspath cwd path = normpath (if startswith path ''/'' then path else join cwd path)"

text \<open>\<^verbatim>\<open>len(os.path.commonprefix([xs, ys]))\<close> on two lists of components.\<close>

fun common_len :: "string list \<Rightarrow> string list \<Rightarrow> nat" where
  "common_len (x # xs) (y # ys) = (if x = y then Suc (common_len xs ys) else 0)"
| "common_len _ _ = 0"

text \<open>
  \<^verbatim>\<open>posixpath.relpath(path, start)\<close>:
  \<^verbatim>\<open>if not path: raise ValueError("no path specified")
  start_list = [x for x in abspath(start).split(sep) if x]
  path_list = [x for x in abspath(path).split(sep) if x]
  i = len(commonprefix([start_list, path_list]))
  rel_list = [pardir] * (len(start_list)-i) + path_list[i:]
  if not rel_list: return curdir
  return join(*rel_list)\<close>
  The components of \<open>rel_list\<close> are non-empty and hold no slash, so the final
  \<^verbatim>\<open>join(*rel_list)\<close> is \<^verbatim>\<open>'/'.join(rel_list)\<close>.
\<close>

definition abs_list :: "string \<Rightarrow> string \<Rightarrow> string list" where
  "abs_list cwd p = filter (\<lambda>x. x \<noteq> []) (py_split CHR ''/'' (abspath cwd p))"

definition relpath :: "string \<Rightarrow> string \<Rightarrow> string \<Rightarrow> py_error + string" where
  "relpath cwd path start =
     (if path = [] then Inl ValueError
      else
        let start_list = abs_list cwd start;
            path_list = abs_list cwd path;
            i = common_len start_list path_list;
            rel_list = replicate (length start_list - i) ''..'' @ drop i path_list
        in if rel_list = [] then Inr ''.'' else Inr (sep_join ''/'' rel_list))"


section \<open>Regular expressions of the scripts\<close>

text \<open>
  \<^verbatim>\<open>MARKDOWN_LINK_PATTERN = re.compile(r'\[([^\]]+)\]\(([^)]+)\)')\<close>.
  Both character classes are negated single characters, so the greedy runs stop at the first
  \<^verbatim>\<open>]\<close> and at the first \<^verbatim>\<open>)\<close> and backtracking finds nothing more. \<open>match_link s\<close> matches the
  pattern at the start of \<open>s\<close> and returns the two groups and the rest of the string.
\<close>

definition match_link :: "string \<Rightarrow> (string \<times> string \<times> string) option" where
  "match_link s =
     (case s of
        [] \<Rightarrow> None
      | c # r \<Rightarrow>
         if c \<noteq> CHR ''['' then None
         else
           let t = takeWhile (\<lambda>x. x \<noteq> CHR '']'') r;
               r1 = dropWhile (\<lambda>x. x \<noteq> CHR '']'') r
           in if t = [] then None
              else (case r1 of
                      c1 # c2 # r2 \<Rightarrow>
                        if c1 = CHR '']'' \<and> c2 = CHR ''(''
                        then
                          let l = takeWhile (\<lambda>x. x \<noteq> CHR '')'') r2;
                              r3 = dropWhile (\<lambda>x. x \<noteq> CHR '')'') r2
                          in if l = [] then None
                             else (case r3 of [] \<Rightarrow> None | _ # rest \<Rightarrow> Some (t, l, rest))
                        else None
                    | _ \<Rightarrow> None))"

text \<open>
  \<^verbatim>\<open>MARKDOWN_LINK_PATTERN.findall(content)\<close>: the matches from left to right, the search going
  on after the end of each match; each match gives the pair (text, link).
\<close>

function findall :: "string \<Rightarrow> (string \<times> string) list" where
  "findall [] = []"
| "findall (c # cs) =
     (case match_link (c # cs) of
        Some (t, l, rest) \<Rightarrow> (t, l) # findall rest
      | None \<Rightarrow> findall cs)"
  by pat_completeness auto
termination
proof (relation "measure length", goal_cases)
  case 1
  show ?case by simp
next
  case (2 c cs)
  show ?case by simp
next
  case (3 c cs m t lr l rest)
  have dw: "length (dropWhile P xs) \<le> length xs" for P and xs :: string
    by (rule length_dropWhile_le)
  from 3 have m: "match_link (c # cs) = Some (t, l, rest)"
    by simp
  then obtain r2 y where r1: "dropWhile (\<lambda>x. x \<noteq> CHR '']'') cs = CHR '']'' # CHR ''('' # r2"
    and r3: "dropWhile (\<lambda>x. x \<noteq> CHR '')'') r2 = y # rest"
    by (auto simp: match_link_def Let_def split: if_splits list.splits)
  from r3 have "length rest < length (dropWhile (\<lambda>x. x \<noteq> CHR '')'') r2)"
    by simp
  also have "\<dots> \<le> length r2" by (rule dw)
  also have "\<dots> < length (dropWhile (\<lambda>x. x \<noteq> CHR '']'') cs)" using r1 by simp
  also have "\<dots> \<le> length cs" by (rule dw)
  finally show ?case by simp
qed

text \<open>
  \<^verbatim>\<open>ANCHOR_PATTERN = re.compile(r'(.*)#(.*)')\<close>, used with \<^verbatim>\<open>match\<close>: the dot stops at a
  newline, the first group is greedy. The groups are what stands before and after the last
  \<^verbatim>\<open>#\<close> of the first line.
\<close>

definition anchor_match :: "string \<Rightarrow> (string \<times> string) option" where
  "anchor_match s =
     (let l = takeWhile (\<lambda>c. c \<noteq> CHR 0x0A) s
      in if CHR ''#'' \<in> set l
         then Some (rev (tl (dropWhile (\<lambda>c. c \<noteq> CHR ''#'') (rev l))),
                    rev (takeWhile (\<lambda>c. c \<noteq> CHR ''#'') (rev l)))
         else None)"

text \<open>
  \<^verbatim>\<open>re.search(re.escape(pat), s)\<close> finds the literal \<open>pat\<close> in \<open>s\<close>;
  \<^verbatim>\<open>re.sub(re.escape(pat), rep.replace('\\', '\\\\'), s)\<close> replaces every occurrence of the
  literal \<open>pat\<close>, from left to right and without overlap, by the literal \<open>rep\<close> (the
  backslash is the only special character of a replacement template). For the empty
  pattern \<^verbatim>\<open>re.sub\<close> puts \<open>rep\<close> before every character and at the end.
\<close>

fun re_search :: "string \<Rightarrow> string \<Rightarrow> bool" where
  "re_search pat [] = (pat = [])"
| "re_search pat (c # cs) = (prefix pat (c # cs) \<or> re_search pat cs)"

function re_sub :: "string \<Rightarrow> string \<Rightarrow> string \<Rightarrow> string" where
  "re_sub pat rep s =
     (if pat = [] then rep @ concat (map (\<lambda>c. c # rep) s)
      else if prefix pat s then rep @ re_sub pat rep (drop (length pat) s)
      else (case s of [] \<Rightarrow> [] | c # cs \<Rightarrow> c # re_sub pat rep cs))"
  by pat_completeness auto
termination
  by (relation "measure (\<lambda>(pat, rep, s). length s)") (auto simp: prefix_def)

declare re_sub.simps [simp del]

section \<open>The link database of link_campaign.py\<close>

text \<open>
  An entry of \<^verbatim>\<open>broken_links\<close> is the dictionary with the keys \<^verbatim>\<open>source\<close>, \<^verbatim>\<open>text\<close>,
  \<^verbatim>\<open>link\<close> and \<^verbatim>\<open>suggested_fix\<close>.
\<close>

record link_info =
  source :: string
  linktext :: string
  link :: string
  suggested_fix :: "string option"

text \<open>
  \<^verbatim>\<open>class LinkDatabase\<close>. \<^verbatim>\<open>all_files\<close> is a Python set of strings: the order in which a loop
  visits it is fixed by the interpreter (string hashes are randomised for every process),
  not by the program. The model holds the set as the list of its elements in the order of
  iteration. \<^verbatim>\<open>custom_mappings\<close> and \<^verbatim>\<open>file_content\<close> are dictionaries.
\<close>

record link_database =
  all_files :: "string list"
  file_content :: "string \<rightharpoonup> string"
  broken_links :: "link_info list"
  fixed_links :: "link_info list"
  manual_review :: "link_info list"
  custom_mappings :: "string \<rightharpoonup> string"

text \<open>
  The module constant \<^verbatim>\<open>ROOT_DIR\<close> and the working directory of the process (which
  \<^verbatim>\<open>os.path.relpath\<close> reads for relative paths).
\<close>

record config =
  ROOT_DIR :: string
  cwd :: string

text \<open>
  The file system: the paths for which \<^verbatim>\<open>os.path.exists\<close> holds, the text that
  \<^verbatim>\<open>open(path).read()\<close> returns (\<open>None\<close>: the read raises), and the log of the paths
  that were opened for writing, the latest last.
\<close>

record filesystem =
  fs_paths :: "string set"
  fs_text :: "string \<rightharpoonup> string"
  fs_written :: "string list"

text \<open>
  The distance of a candidate, lines 128 to 140 of \<^verbatim>\<open>find_best_match\<close>:
  \<^verbatim>\<open>source_dir = os.path.dirname(source_file)
  target_dir = os.path.dirname(file)
  if not source_dir: source_dir = "."
  if not target_dir: target_dir = "."
  try:
      rel_path = os.path.relpath(target_dir, source_dir)
      distance = len(rel_path.split('/'))
  except ValueError:
      distance = 1000\<close>
\<close>

definition distance :: "config \<Rightarrow> string \<Rightarrow> string \<Rightarrow> nat" where
  "distance cfg source_file file =
     (let source_dir = (if dirname source_file = [] then ''.'' else dirname source_file);
          target_dir = (if dirname file = [] then ''.'' else dirname file)
      in case relpath (cwd cfg) target_dir source_dir of
           Inl e \<Rightarrow> 1000
         | Inr rel_path \<Rightarrow> length (py_split CHR ''/'' rel_path))"

text \<open>The two scans of \<^verbatim>\<open>find_best_match\<close>, lines 124 to 160.\<close>

definition scan_suffix :: "config \<Rightarrow> string list \<Rightarrow> string \<Rightarrow> string \<Rightarrow> (string \<times> nat) list" where
  "scan_suffix cfg files target_file source_file =
     map (\<lambda>file. (file, distance cfg source_file file))
       (filter (\<lambda>file. endswith (lower file) (''/'' @ lower target_file)) files)"

definition scan_basename :: "config \<Rightarrow> string list \<Rightarrow> string \<Rightarrow> string \<Rightarrow> (string \<times> nat) list" where
  "scan_basename cfg files target_file source_file =
     map (\<lambda>file. (file, distance cfg source_file file))
       (filter (\<lambda>file. lower (basename file) = lower target_file) files)"

definition candidates :: "config \<Rightarrow> string list \<Rightarrow> string \<Rightarrow> string \<Rightarrow> (string \<times> nat) list" where
  "candidates cfg files target_file source_file =
     (let matches = scan_suffix cfg files target_file source_file
      in if matches = [] then scan_basename cfg files target_file source_file else matches)"

text \<open>\<^verbatim>\<open>rel_path.replace('\\', '/')\<close>.\<close>

definition forward_slashes :: "string \<Rightarrow> string" where
  "forward_slashes s = map (\<lambda>c. if c = CHR 0x5C then CHR ''/'' else c) s"

text \<open>
  The file name and the anchor that \<^verbatim>\<open>find_best_match\<close> takes from the broken link, lines
  113 to 121: \<^verbatim>\<open>link_parts[-1]\<close>, then the groups of \<^verbatim>\<open>ANCHOR_PATTERN\<close> when it matches.
\<close>

definition target_and_anchor :: "string \<Rightarrow> string \<times> string option" where
  "target_and_anchor broken_link =
     (let target_file = last (py_split CHR ''/'' broken_link)
      in case anchor_match target_file of
           Some (g1, g2) \<Rightarrow> (g1, Some g2)
         | None \<Rightarrow> (target_file, None))"

text \<open>
  \<^verbatim>\<open>LinkDatabase.find_best_match\<close>. Lines 162 to 167 sort the matches by distance and take
  the file of the first one (\<open>best_candidate\<close>); Python's \<^verbatim>\<open>list.sort\<close> is stable, as
  \<^const>\<open>sort_key\<close> is. The last \<^verbatim>\<open>relpath\<close> is not inside a \<^verbatim>\<open>try\<close>: its \<^verbatim>\<open>ValueError\<close> leaves
  the function.
\<close>

definition add_anchor :: "string \<Rightarrow> string option \<Rightarrow> string" where
  "add_anchor rel_path anchor =
     (case anchor of None \<Rightarrow> rel_path | Some a \<Rightarrow> if a = [] then rel_path else rel_path @ ''#'' @ a)"

definition best_candidate :: "config \<Rightarrow> string list \<Rightarrow> string \<Rightarrow> string \<Rightarrow> string option" where
  "best_candidate cfg files target_file source_file =
     (case sort_key snd (candidates cfg files target_file source_file) of
        [] \<Rightarrow> None
      | m # _ \<Rightarrow> Some (fst m))"

definition find_best_match ::
  "config \<Rightarrow> link_database \<Rightarrow> string \<Rightarrow> string \<Rightarrow> py_error + string option" where
  "find_best_match cfg db broken_link source_file =
     (case custom_mappings db broken_link of
        Some v \<Rightarrow> Inr (Some v)
      | None \<Rightarrow>
         (let (target_file, anchor) = target_and_anchor broken_link
          in (case best_candidate cfg (all_files db) target_file source_file of
                None \<Rightarrow> Inr None
              | Some best_match \<Rightarrow>
                 (case relpath (cwd cfg) (join (ROOT_DIR cfg) best_match)
                         (dirname (join (ROOT_DIR cfg) source_file)) of
                    Inl e \<Rightarrow> Inl e
                  | Inr rel_path \<Rightarrow>
                      Inr (Some (add_anchor (forward_slashes rel_path) anchor))))))"

text \<open>
  A \<^verbatim>\<open>for\<close> loop whose body may raise: the first error ends the loop.
\<close>

fun for_each :: "('a \<Rightarrow> 's \<Rightarrow> py_error + 's) \<Rightarrow> 'a list \<Rightarrow> 's \<Rightarrow> py_error + 's" where
  "for_each body [] s = Inr s"
| "for_each body (x # xs) s =
     (case body x s of Inl e \<Rightarrow> Inl e | Inr s' \<Rightarrow> for_each body xs s')"

text \<open>
  \<^verbatim>\<open>LinkDatabase.check_links\<close>, the body of the loop over the links of one file, lines 193
  to 220. The guard of line 195:
  \<^verbatim>\<open>if link.startswith(('http://', 'https://', '#', '/')): continue\<close>
\<close>

definition skip_link :: "string \<Rightarrow> bool" where
  "skip_link l =
     (startswith l ''http://'' \<or> startswith l ''https://'' \<or> startswith l ''#''
      \<or> startswith l ''/'')"

text \<open>
  \<^verbatim>\<open>link_full_path = os.path.normpath(os.path.join(os.path.dirname(
      os.path.join(ROOT_DIR, source_file)), link_path))
  link_rel_path = os.path.relpath(link_full_path, ROOT_DIR)\<close>
  \<^verbatim>\<open>normpath\<close> never returns the empty string, so this \<^verbatim>\<open>relpath\<close> never raises; its value is
  not used by \<^verbatim>\<open>check_links\<close>.
\<close>

definition link_full_path :: "config \<Rightarrow> string \<Rightarrow> string \<Rightarrow> string" where
  "link_full_path cfg source_file link_path =
     normpath (join (dirname (join (ROOT_DIR cfg) source_file)) link_path)"

definition link_rel_path :: "config \<Rightarrow> string \<Rightarrow> string \<Rightarrow> py_error + string" where
  "link_rel_path cfg source_file link_path =
     relpath (cwd cfg) (link_full_path cfg source_file link_path) (ROOT_DIR cfg)"

definition check_link ::
  "config \<Rightarrow> filesystem \<Rightarrow> string \<Rightarrow> string \<times> string \<Rightarrow> link_database
     \<Rightarrow> py_error + link_database" where
  "check_link cfg fs source_file m db =
     (let (t, l) = m
      in if skip_link l then Inr db
         else
           let link_path = hd (py_split CHR ''#'' l)
           in if link_path = [] then Inr db
              else if link_full_path cfg source_file link_path \<in> fs_paths fs then Inr db
              else (case find_best_match cfg db l source_file of
                      Inl e \<Rightarrow> Inl e
                    | Inr best_match \<Rightarrow>
                        Inr (db\<lparr>broken_links := broken_links db @
                               [\<lparr>source = source_file, linktext = t, link = l,
                                 suggested_fix = best_match\<rparr>]\<rparr>)))"

text \<open>
  The body of the loop over \<^verbatim>\<open>all_files\<close>, lines 182 to 220. A file that exists and cannot
  be read makes \<^verbatim>\<open>open\<close> or \<^verbatim>\<open>read\<close> raise; nothing catches it.
\<close>

definition check_file ::
  "config \<Rightarrow> filesystem \<Rightarrow> string \<Rightarrow> link_database \<Rightarrow> py_error + link_database" where
  "check_file cfg fs source_file db =
     (let full_path = join (ROOT_DIR cfg) source_file
      in if full_path \<notin> fs_paths fs then Inr db
         else (case fs_text fs full_path of
                 None \<Rightarrow> Inl IOError
               | Some content \<Rightarrow>
                   for_each (check_link cfg fs source_file) (findall content)
                     (db\<lparr>file_content := (file_content db)(source_file \<mapsto> content)\<rparr>)))"

text \<open>
  \<^verbatim>\<open>LinkDatabase.fix_links\<close>. \<^verbatim>\<open>links_by_file\<close> is a \<^verbatim>\<open>defaultdict(list)\<close>: a dictionary
  keeps its keys in the order of their first insertion.
\<close>

fun add_by_file :: "link_info \<Rightarrow> (string \<times> link_info list) list \<Rightarrow> (string \<times> link_info list) list" where
  "add_by_file li [] = [(source li, [li])]"
| "add_by_file li ((k, v) # kvs) =
     (if k = source li then (k, v @ [li]) # kvs else (k, v) # add_by_file li kvs)"

definition links_by_file :: "link_info list \<Rightarrow> (string \<times> link_info list) list" where
  "links_by_file bl = foldl (\<lambda>acc li. add_by_file li acc) [] bl"

text \<open>The syntax \<^verbatim>\<open>f'[{text}]({target})'\<close> of a link.\<close>

definition link_syntax :: "string \<Rightarrow> string \<Rightarrow> string" where
  "link_syntax t l = ''['' @ t @ '']('' @ l @ '')''"

text \<open>
  The body of the loop over the links of one file, lines 246 to 270. The state is
  \<^verbatim>\<open>updated_content\<close> and the database; \<^verbatim>\<open>file_changes\<close> is only printed.
\<close>

definition fix_link :: "link_info \<Rightarrow> string \<times> link_database \<Rightarrow> string \<times> link_database" where
  "fix_link li st =
     (let (updated_content, db) = st
      in case suggested_fix li of
           None \<Rightarrow> (updated_content, db\<lparr>manual_review := manual_review db @ [li]\<rparr>)
         | Some fix \<Rightarrow>
             if fix = [] then (updated_content, db\<lparr>manual_review := manual_review db @ [li]\<rparr>)
             else
               let old_link = link_syntax (linktext li) (link li);
                   new_link = link_syntax (linktext li) fix
               in if re_search old_link updated_content
                  then (re_sub old_link new_link updated_content,
                        db\<lparr>fixed_links := fixed_links db @ [li]\<rparr>)
                  else (updated_content, db\<lparr>manual_review := manual_review db @ [li]\<rparr>))"

text \<open>
  \<^verbatim>\<open>links.sort(key=lambda x: len(x['link']), reverse=True)\<close>: stable, the longest first.
\<close>

definition sort_links :: "link_info list \<Rightarrow> link_info list" where
  "sort_links links = sort_key (\<lambda>x. - int (length (link x))) links"

text \<open>
  The body of the loop over \<^verbatim>\<open>links_by_file.items()\<close>, lines 238 to 283.
  \<^verbatim>\<open>self.file_content[source_file]\<close> raises \<^verbatim>\<open>KeyError\<close> for a file that was not read. The
  write of line 275 is taken to succeed.
\<close>

definition write_file :: "filesystem \<Rightarrow> string \<Rightarrow> string \<Rightarrow> filesystem" where
  "write_file fs path content =
     fs\<lparr>fs_paths := insert path (fs_paths fs), fs_text := (fs_text fs)(path \<mapsto> content),
        fs_written := fs_written fs @ [path]\<rparr>"

definition fix_file ::
  "config \<Rightarrow> string \<times> link_info list \<Rightarrow> link_database \<times> filesystem
     \<Rightarrow> py_error + link_database \<times> filesystem" where
  "fix_file cfg entry st =
     (let (source_file, links) = entry; (db, fs) = st
      in case file_content db source_file of
           None \<Rightarrow> Inl KeyError
         | Some content \<Rightarrow>
             let (updated_content, db') = foldl (\<lambda>s li. fix_link li s) (content, db) (sort_links links)
             in if content \<noteq> updated_content
                then Inr (db', write_file fs (join (ROOT_DIR cfg) source_file) updated_content)
                else Inr (db', fs))"

definition fix_links ::
  "config \<Rightarrow> link_database \<times> filesystem \<Rightarrow> py_error + link_database \<times> filesystem" where
  "fix_links cfg st = for_each (fix_file cfg) (links_by_file (broken_links (fst st))) st"

text \<open>
  \<^verbatim>\<open>LinkDatabase.check_links(dry_run)\<close>: the analysis, then \<^verbatim>\<open>fix_links\<close> unless
  \<^verbatim>\<open>dry_run\<close>.
\<close>

definition check_links ::
  "config \<Rightarrow> bool \<Rightarrow> link_database \<times> filesystem \<Rightarrow> py_error + link_database \<times> filesystem" where
  "check_links cfg dry_run st =
     (let (db, fs) = st
      in case for_each (check_file cfg fs) (all_files db) db of
           Inl e \<Rightarrow> Inl e
         | Inr db' \<Rightarrow> if dry_run then Inr (db', fs) else fix_links cfg (db', fs))"

text \<open>A fresh \<^verbatim>\<open>LinkDatabase()\<close> after \<^verbatim>\<open>load_custom_mappings\<close> and \<^verbatim>\<open>scan_all_files\<close>.\<close>

definition new_database :: "string list \<Rightarrow> (string \<rightharpoonup> string) \<Rightarrow> link_database" where
  "new_database files mappings =
     \<lparr>all_files = files, file_content = Map.empty, broken_links = [], fixed_links = [],
      manual_review = [], custom_mappings = mappings\<rparr>"


section \<open>simple_link_campaign.py\<close>

text \<open>
  The module globals \<^verbatim>\<open>custom_mappings\<close> and \<^verbatim>\<open>all_files\<close> are parameters; \<^verbatim>\<open>all_files\<close> is
  again a set, given as the list of its elements in the order of iteration.

  \<^verbatim>\<open>similarity_score\<close>, lines 89 to 100: the number of leading components that the
  directory of the source and the directory of the candidate share.
\<close>

definition similarity_score :: "string \<Rightarrow> string \<Rightarrow> nat" where
  "similarity_score source_dir match_path =
     common_len (py_split CHR ''/'' source_dir) (py_split CHR ''/'' (dirname match_path))"

text \<open>
  \<^verbatim>\<open>find_best_match\<close> of simple_link_campaign.py.
  \<^verbatim>\<open>matches.sort(key=similarity_score, reverse=True)\<close> is stable. A \<^verbatim>\<open>ValueError\<close> of
  \<^verbatim>\<open>relpath\<close> is caught and the candidate itself is returned.
\<close>

definition find_best_match_simple ::
  "config \<Rightarrow> (string \<rightharpoonup> string) \<Rightarrow> string list \<Rightarrow> string \<Rightarrow> string \<Rightarrow> string option" where
  "find_best_match_simple cfg mappings files broken_link source_file =
     (case mappings broken_link of
        Some v \<Rightarrow> Some v
      | None \<Rightarrow>
         (let filename = basename broken_link;
              exact = filter (\<lambda>file_path. basename file_path = filename) files;
              matches = (if exact = []
                         then filter (\<lambda>file_path. lower (basename file_path) = lower filename) files
                         else exact);
              source_dir = dirname source_file
          in (case sort_key (\<lambda>m. - int (similarity_score source_dir m)) matches of
                [] \<Rightarrow> None
              | best_match # _ \<Rightarrow>
                 (case relpath (cwd cfg) best_match source_dir of
                    Inl e \<Rightarrow> Some best_match
                  | Inr rel_path \<Rightarrow> Some rel_path))))"

text \<open>
  \<^verbatim>\<open>check_links_in_file\<close> of simple_link_campaign.py: the broken and the valid links of one
  file. A file that cannot be read gives two empty lists.
\<close>

record simple_link =
  s_source :: string
  s_text :: string
  s_link :: string
  s_resolved :: string

definition skip_link_simple :: "string \<Rightarrow> bool" where
  "skip_link_simple l =
     (startswith l ''http://'' \<or> startswith l ''https://'' \<or> startswith l ''mailto:''
      \<or> startswith l ''#'')"

definition check_link_simple ::
  "config \<Rightarrow> filesystem \<Rightarrow> string \<Rightarrow> string \<times> string
     \<Rightarrow> simple_link list \<times> simple_link list \<Rightarrow> simple_link list \<times> simple_link list" where
  "check_link_simple cfg fs file_path m acc =
     (let (link_text, link_path) = m; (broken, valid) = acc
      in if skip_link_simple link_path then acc
         else
           let source_dir = dirname file_path;
               full_path = normpath (join source_dir link_path);
               entry = \<lparr>s_source = file_path, s_text = link_text, s_link = link_path,
                        s_resolved = full_path\<rparr>
           in if join (ROOT_DIR cfg) full_path \<in> fs_paths fs then (broken, valid @ [entry])
              else (broken @ [entry], valid))"

definition check_links_in_file ::
  "config \<Rightarrow> filesystem \<Rightarrow> string \<Rightarrow> simple_link list \<times> simple_link list" where
  "check_links_in_file cfg fs file_path =
     (case fs_text fs (join (ROOT_DIR cfg) file_path) of
        None \<Rightarrow> ([], [])
      | Some content \<Rightarrow>
          foldl (\<lambda>acc m. check_link_simple cfg fs file_path m acc) ([], []) (findall content))"


section \<open>What a run reports\<close>

text \<open>
  \<^verbatim>\<open>generate_report\<close> writes the three lists of the database: the broken links, the links
  fixed and the links left for manual review.
\<close>

definition report ::
  "py_error + link_database \<times> filesystem
     \<Rightarrow> py_error + link_info list \<times> link_info list \<times> link_info list" where
  "report r =
     (case r of
        Inl e \<Rightarrow> Inl e
      | Inr (db, fs) \<Rightarrow> Inr (broken_links db, fixed_links db, manual_review db))"

section \<open>Example corpora\<close>

definition cfg_ex :: config where
  "cfg_ex = \<lparr>ROOT_DIR = ''/repo'', cwd = ''/repo/scripts''\<rparr>"

text \<open>One document with one link; \<open>others\<close> are further paths that exist.\<close>

definition fs_one :: "string \<Rightarrow> string set \<Rightarrow> filesystem" where
  "fs_one content others =
     \<lparr>fs_paths = insert ''/repo/a.md'' others, fs_text = [''/repo/a.md'' \<mapsto> content],
      fs_written = []\<rparr>"

definition override_ex :: "string \<rightharpoonup> string" where
  "override_ex = [''old.md'' \<mapsto> ''new.md'']"



text \<open>
  A corpus of three documents: \<^verbatim>\<open>a.md\<close> has a broken link that the filename search repairs,
  \<^verbatim>\<open>b.md\<close> has a broken link without any candidate.
\<close>

definition files_ex :: "string list" where
  "files_ex = [''a.md'', ''b.md'', ''docs/setup.md'']"

definition fs_ex :: filesystem where
  "fs_ex =
     \<lparr>fs_paths = {''/repo'', ''/repo/docs'', ''/repo/a.md'', ''/repo/b.md'', ''/repo/docs/setup.md''},
      fs_text = [''/repo/a.md'' \<mapsto> ''[s](setup.md)'', ''/repo/b.md'' \<mapsto> ''[n](nowhere.md)'',
                 ''/repo/docs/setup.md'' \<mapsto> ''ok''],
      fs_written = []\<rparr>"


section \<open>Notions used in the statements\<close>

text \<open>
  What \<open>check_links\<close> has established about a link when it appends the entry \<open>b\<close> to
  \<^verbatim>\<open>broken_links\<close>: the source is a document of the index that exists, the link passed the
  guards of lines 195 and 201, its resolved path does not exist, and the suggestion is what
  \<open>find_best_match\<close> returned.
\<close>

definition recorded_broken :: "config \<Rightarrow> link_database \<Rightarrow> filesystem \<Rightarrow> link_info \<Rightarrow> bool" where
  "recorded_broken cfg db fs b =
     (source b \<in> set (all_files db)
      \<and> join (ROOT_DIR cfg) (source b) \<in> fs_paths fs
      \<and> \<not> skip_link (link b)
      \<and> hd (py_split CHR ''#'' (link b)) \<noteq> []
      \<and> link_full_path cfg (source b) (hd (py_split CHR ''#'' (link b))) \<notin> fs_paths fs
      \<and> find_best_match cfg db (link b) (source b) = Inr (suggested_fix b))"

text \<open>
  The candidates at minimal distance, in the order in which the iteration over the file set
  met them; and the situation in which there is no tie between different candidates.
\<close>

definition minimal_candidates ::
  "config \<Rightarrow> string list \<Rightarrow> string \<Rightarrow> string \<Rightarrow> (string \<times> nat) list" where
  "minimal_candidates cfg files target_file source_file =
     (let c = candidates cfg files target_file source_file
      in filter (\<lambda>m. \<forall>n \<in> set c. snd m \<le> snd n) c)"

definition tie_free :: "config \<Rightarrow> string list \<Rightarrow> string \<Rightarrow> string \<Rightarrow> bool" where
  "tie_free cfg files target_file source_file =
     (\<forall>m \<in> set (minimal_candidates cfg files target_file source_file).
      \<forall>n \<in> set (minimal_candidates cfg files target_file source_file). m = n)"

text \<open>
  The paths of the index as \<^verbatim>\<open>scan_all_files\<close> produces them (\<^verbatim>\<open>os.walk\<close> and \<^verbatim>\<open>relpath\<close>):
  relative, with components that are names (not empty, not \<^verbatim>\<open>.\<close>, not \<^verbatim>\<open>..\<close>). \<^verbatim>\<open>ROOT_DIR\<close> is
  the result of \<^verbatim>\<open>os.path.abspath\<close>: a slash followed by such components, or the slash
  alone. \<open>abs_of\<close> is the absolute path with the given components.
\<close>

definition seg_ok :: "string \<Rightarrow> bool" where
  "seg_ok x = (x \<noteq> [] \<and> x \<noteq> ''.'' \<and> x \<noteq> ''..'' \<and> CHR ''/'' \<notin> set x)"

definition rel_ok :: "string \<Rightarrow> bool" where
  "rel_ok p = list_all seg_ok (py_split CHR ''/'' p)"

definition root_ok :: "string \<Rightarrow> bool" where
  "root_ok r = (case r of [] \<Rightarrow> False | c # rest \<Rightarrow> c = CHR ''/'' \<and> (rest = [] \<or> rel_ok rest))"

definition abs_of :: "string list \<Rightarrow> string" where
  "abs_of xs = ''/'' @ sep_join ''/'' xs"

text \<open>
  The Rewriter in the words of the specification (4.4): the references of one document are
  handled in turn; a reference with a suggestion is fixed exactly if the original syntax
  \<^verbatim>\<open>[text](raw-target)\<close> is found verbatim in the content as it then stands, and then its
  occurrences are replaced by \<^verbatim>\<open>[text](suggested-target)\<close>; every other reference goes to
  manual review and leaves the content as it is. The state is the content, the references
  fixed and the references for manual review.
\<close>

definition spec_apply_fix ::
  "string \<times> link_info list \<times> link_info list \<Rightarrow> link_info
     \<Rightarrow> string \<times> link_info list \<times> link_info list" where
  "spec_apply_fix st li =
     (let (content, fixed, manual) = st
      in case suggested_fix li of
           None \<Rightarrow> (content, fixed, manual @ [li])
         | Some fix \<Rightarrow>
             if fix \<noteq> [] \<and> sublist (''['' @ linktext li @ '']('' @ link li @ '')'') content
             then (re_sub (''['' @ linktext li @ '']('' @ link li @ '')'')
                          (''['' @ linktext li @ '']('' @ fix @ '')'') content,
                   fixed @ [li], manual)
             else (content, fixed, manual @ [li]))"

definition spec_apply_document ::
  "string \<Rightarrow> link_info list \<Rightarrow> string \<times> link_info list \<times> link_info list" where
  "spec_apply_document content refs = foldl spec_apply_fix (content, [], []) refs"

section \<open>Loops and frames\<close>

lemma for_each_invariant:
  assumes "for_each body xs s = Inr s'" and "I s"
    and "\<And>x t t'. x \<in> set xs \<Longrightarrow> I t \<Longrightarrow> body x t = Inr t' \<Longrightarrow> I t'"
  shows "I s'"
  using assms
proof (induction xs arbitrary: s)
  case Nil
  then show ?case by simp
next
  case (Cons x xs)
  from Cons.prems(1) obtain t where t: "body x s = Inr t" and r: "for_each body xs t = Inr s'"
    by (auto split: sum.splits)
  have "I t" using Cons.prems(2,3) t by auto
  with Cons.IH [OF r] Cons.prems(3) show ?case by auto
qed

lemma for_each_total:
  assumes "\<And>x t. x \<in> set xs \<Longrightarrow> I t \<Longrightarrow> \<exists>t'. body x t = Inr t' \<and> I t'" and "I s"
  shows "\<exists>s'. for_each body xs s = Inr s' \<and> I s'"
  using assms
proof (induction xs arbitrary: s)
  case Nil
  then show ?case by simp
next
  case (Cons x xs)
  from Cons.prems obtain t where t: "body x s = Inr t" "I t"
    by (meson list.set_intros(1))
  from Cons.IH [of t] Cons.prems(1) t(2) obtain s' where "for_each body xs t = Inr s'" "I s'"
    by (meson list.set_intros(2))
  with t show ?case by simp
qed

text \<open>The loop body of \<open>fix_links\<close> only appends to the two result lists.\<close>

lemma fix_link_frame:
  "fix_link li (c, db) = (c', db') \<Longrightarrow>
     broken_links db' = broken_links db \<and> all_files db' = all_files db
     \<and> custom_mappings db' = custom_mappings db \<and> file_content db' = file_content db"
  by (auto simp: fix_link_def Let_def split: option.splits if_splits)

lemma fix_link_cases:
  assumes "fix_link li (c, db) = (c', db')"
  shows "fixed_links db' = fixed_links db @ [li] \<and> manual_review db' = manual_review db
       \<or> fixed_links db' = fixed_links db \<and> manual_review db' = manual_review db @ [li] \<and> c' = c"
  using assms by (auto simp: fix_link_def Let_def split: option.splits if_splits)

lemma fix_loop_snoc:
  "foldl (\<lambda>s x. fix_link x s) st (ls @ [li]) = fix_link li (foldl (\<lambda>s x. fix_link x s) st ls)"
  by simp

lemma fix_loop_result:
  assumes "foldl (\<lambda>s x. fix_link x s) (c, db) ls = (c', db')"
  shows "\<exists>fx mn. fixed_links db' = fixed_links db @ fx \<and> manual_review db' = manual_review db @ mn
           \<and> mset fx + mset mn = mset ls \<and> (c' \<noteq> c \<longrightarrow> fx \<noteq> [])
           \<and> broken_links db' = broken_links db \<and> all_files db' = all_files db
           \<and> custom_mappings db' = custom_mappings db \<and> file_content db' = file_content db"
  using assms
proof (induction ls arbitrary: c' db' rule: rev_induct)
  case Nil
  then show ?case by simp
next
  case (snoc li ls)
  obtain c1 db1 where mid: "foldl (\<lambda>s x. fix_link x s) (c, db) ls = (c1, db1)"
    by (cases "foldl (\<lambda>s x. fix_link x s) (c, db) ls")
  with snoc.prems have step: "fix_link li (c1, db1) = (c', db')"
    by simp
  from snoc.IH [OF mid] obtain fx mn where ih:
    "fixed_links db1 = fixed_links db @ fx" "manual_review db1 = manual_review db @ mn"
    "mset fx + mset mn = mset ls" "c1 \<noteq> c \<longrightarrow> fx \<noteq> []"
    "broken_links db1 = broken_links db" "all_files db1 = all_files db"
    "custom_mappings db1 = custom_mappings db" "file_content db1 = file_content db"
    by blast
  note fr = fix_link_frame [OF step]
  from fix_link_cases [OF step] show ?case
  proof
    assume a: "fixed_links db' = fixed_links db1 @ [li] \<and> manual_review db' = manual_review db1"
    show ?thesis
      by (rule exI [of _ "fx @ [li]"], rule exI [of _ mn]) (use a ih fr in simp)
  next
    assume a: "fixed_links db' = fixed_links db1 \<and> manual_review db' = manual_review db1 @ [li] \<and> c' = c1"
    show ?thesis
      by (rule exI [of _ fx], rule exI [of _ "mn @ [li]"]) (use a ih fr in simp)
  qed
qed

text \<open>The grouping by source file keeps every entry, under the key of its source.\<close>

lemma add_by_file_mset:
  "mset (concat (map snd (add_by_file li kvs))) = mset (concat (map snd kvs)) + {#li#}"
  by (induction kvs) auto

lemma add_by_file_keys:
  assumes "(k, v) \<in> set (add_by_file li kvs)" and "x \<in> set v"
    and "\<And>k v x. (k, v) \<in> set kvs \<Longrightarrow> x \<in> set v \<Longrightarrow> source x = k"
  shows "source x = k"
  using assms
proof (induction kvs)
  case Nil
  then show ?case by simp
next
  case (Cons kv kvs)
  obtain k0 v0 where kv: "kv = (k0, v0)" by (cases kv)
  show ?case
  proof (cases "k0 = source li")
    case True
    with Cons.prems(1) kv have "(k, v) = (k0, v0 @ [li]) \<or> (k, v) \<in> set kvs"
      by simp
    then show ?thesis
    proof
      assume "(k, v) = (k0, v0 @ [li])"
      with Cons.prems(2) have "x \<in> set v0 \<or> x = li" and "k = k0" by auto
      with True Cons.prems(3) [of k0 v0 x] kv show ?thesis by auto
    next
      assume "(k, v) \<in> set kvs"
      with Cons.prems(2,3) show ?thesis by auto
    qed
  next
    case False
    with Cons.prems(1) kv have "(k, v) = (k0, v0) \<or> (k, v) \<in> set (add_by_file li kvs)"
      by simp
    then show ?thesis
    proof
      assume "(k, v) = (k0, v0)"
      with Cons.prems(2,3) kv show ?thesis by auto
    next
      assume "(k, v) \<in> set (add_by_file li kvs)"
      from Cons.IH [OF this Cons.prems(2)] Cons.prems(3) show ?thesis by auto
    qed
  qed
qed

lemma links_by_file_mset: "mset (concat (map snd (links_by_file bl))) = mset bl"
proof -
  have "mset (concat (map snd (foldl (\<lambda>acc li. add_by_file li acc) kvs bl)))
          = mset (concat (map snd kvs)) + mset bl" for kvs
    by (induction bl arbitrary: kvs) (simp_all add: add_by_file_mset)
  then show ?thesis by (simp add: links_by_file_def)
qed

lemma links_by_file_keys:
  assumes "(k, v) \<in> set (links_by_file bl)" and "x \<in> set v"
  shows "source x = k"
proof -
  have "(k, v) \<in> set (foldl (\<lambda>acc li. add_by_file li acc) kvs bl) \<Longrightarrow>
        (\<And>k v x. (k, v) \<in> set kvs \<Longrightarrow> x \<in> set v \<Longrightarrow> source x = k) \<Longrightarrow> source x = k" for kvs
  proof (induction bl arbitrary: kvs)
    case Nil
    with assms(2) show ?case by auto
  next
    case (Cons li bl)
    show ?case
    proof (rule Cons.IH [of "add_by_file li kvs"])
      show "(k, v) \<in> set (foldl (\<lambda>acc li. add_by_file li acc) (add_by_file li kvs) bl)"
        using Cons.prems(1) by simp
    next
      fix k' v' x'
      assume "(k', v') \<in> set (add_by_file li kvs)" and "x' \<in> set v'"
      then show "source x' = k'"
        by (rule add_by_file_keys) (use Cons.prems(2) in blast)
    qed
  qed
  from this [of "[]"] assms(1) show ?thesis by (simp add: links_by_file_def)
qed

lemma mset_sort_links: "mset (sort_links ls) = mset ls"
  by (simp add: sort_links_def)

text \<open>One file of \<open>fix_links\<close>: what it appends, and what it writes.\<close>

lemma fix_file_result:
  assumes "fix_file cfg (k, ls) (db, fs) = Inr (db', fs')"
  shows "\<exists>fx mn. fixed_links db' = fixed_links db @ fx \<and> manual_review db' = manual_review db @ mn
           \<and> mset fx + mset mn = mset ls
           \<and> broken_links db' = broken_links db \<and> all_files db' = all_files db
           \<and> custom_mappings db' = custom_mappings db \<and> file_content db' = file_content db
           \<and> (fs' = fs \<or> fx \<noteq> [] \<and> (\<exists>c. fs' = write_file fs (join (ROOT_DIR cfg) k) c))"
proof -
  from assms obtain content where content: "file_content db k = Some content"
    by (auto simp: fix_file_def split: option.splits)
  obtain c1 db1 where loop: "foldl (\<lambda>s li. fix_link li s) (content, db) (sort_links ls) = (c1, db1)"
    by (cases "foldl (\<lambda>s li. fix_link li s) (content, db) (sort_links ls)")
  from assms content loop have res: "db' = db1"
    "fs' = (if content \<noteq> c1 then write_file fs (join (ROOT_DIR cfg) k) c1 else fs)"
    by (auto simp: fix_file_def split: if_splits)
  from fix_loop_result [OF loop] obtain fx mn where r:
    "fixed_links db1 = fixed_links db @ fx" "manual_review db1 = manual_review db @ mn"
    "mset fx + mset mn = mset (sort_links ls)" "c1 \<noteq> content \<longrightarrow> fx \<noteq> []"
    "broken_links db1 = broken_links db" "all_files db1 = all_files db"
    "custom_mappings db1 = custom_mappings db" "file_content db1 = file_content db"
    by blast
  show ?thesis
    by (rule exI [of _ fx], rule exI [of _ mn]) (use r res in \<open>auto simp: mset_sort_links\<close>)
qed

lemma fix_file_returns:
  "file_content db k \<noteq> None \<Longrightarrow> \<exists>r. fix_file cfg (k, ls) (db, fs) = Inr r"
  by (auto simp: fix_file_def Let_def split: option.splits prod.splits)

lemma write_file_simps:
  "fs_written (write_file fs p c) = fs_written fs @ [p]"
  "fs_paths (write_file fs p c) = insert p (fs_paths fs)"
  "fs_text (write_file fs p c) = (fs_text fs)(p \<mapsto> c)"
  by (simp_all add: write_file_def)

text \<open>The whole loop of \<open>fix_links\<close> over the groups.\<close>

lemma fix_groups_result:
  assumes "for_each (fix_file cfg) groups (db, fs) = Inr (db', fs')"
    and "\<forall>g \<in> set groups. \<forall>x \<in> set (snd g). source x = fst g"
  shows "\<exists>fx mn ws. fixed_links db' = fixed_links db @ fx
           \<and> manual_review db' = manual_review db @ mn
           \<and> mset fx + mset mn = mset (concat (map snd groups))
           \<and> broken_links db' = broken_links db \<and> all_files db' = all_files db
           \<and> custom_mappings db' = custom_mappings db \<and> file_content db' = file_content db
           \<and> fs_written fs' = fs_written fs @ ws
           \<and> set ws \<subseteq> (\<lambda>li. join (ROOT_DIR cfg) (source li)) ` set fx
           \<and> fs_paths fs \<subseteq> fs_paths fs'
           \<and> (\<forall>p. p \<notin> set ws \<longrightarrow> fs_text fs' p = fs_text fs p \<and> (p \<in> fs_paths fs' \<longleftrightarrow> p \<in> fs_paths fs))"
  using assms
proof (induction groups arbitrary: db fs)
  case Nil
  then show ?case by simp
next
  case (Cons g groups)
  obtain k ls where g: "g = (k, ls)" by (cases g)
  from Cons.prems(1) g obtain db1 fs1 where
    one: "fix_file cfg (k, ls) (db, fs) = Inr (db1, fs1)"
    and rest: "for_each (fix_file cfg) groups (db1, fs1) = Inr (db', fs')"
    by (auto split: sum.splits)
  from fix_file_result [OF one] obtain fx1 mn1 where r1:
    "fixed_links db1 = fixed_links db @ fx1" "manual_review db1 = manual_review db @ mn1"
    "mset fx1 + mset mn1 = mset ls"
    "broken_links db1 = broken_links db" "all_files db1 = all_files db"
    "custom_mappings db1 = custom_mappings db" "file_content db1 = file_content db"
    "fs1 = fs \<or> fx1 \<noteq> [] \<and> (\<exists>c. fs1 = write_file fs (join (ROOT_DIR cfg) k) c)"
    by blast
  have keys: "\<forall>g \<in> set groups. \<forall>x \<in> set (snd g). source x = fst g"
    using Cons.prems(2) by simp
  from Cons.IH [OF rest keys] obtain fx2 mn2 ws2 where r2:
    "fixed_links db' = fixed_links db1 @ fx2" "manual_review db' = manual_review db1 @ mn2"
    "mset fx2 + mset mn2 = mset (concat (map snd groups))"
    "broken_links db' = broken_links db1" "all_files db' = all_files db1"
    "custom_mappings db' = custom_mappings db1" "file_content db' = file_content db1"
    "fs_written fs' = fs_written fs1 @ ws2"
    "set ws2 \<subseteq> (\<lambda>li. join (ROOT_DIR cfg) (source li)) ` set fx2"
    "fs_paths fs1 \<subseteq> fs_paths fs'"
    "\<forall>p. p \<notin> set ws2 \<longrightarrow> fs_text fs' p = fs_text fs1 p \<and> (p \<in> fs_paths fs' \<longleftrightarrow> p \<in> fs_paths fs1)"
    by blast
  have src1: "\<forall>x \<in> set fx1. source x = k"
  proof
    fix x assume "x \<in> set fx1"
    then have "x \<in># mset fx1 + mset mn1" by simp
    with r1(3) have "x \<in> set ls" by simp
    with Cons.prems(2) g show "source x = k" by simp
  qed
  define ws1 where "ws1 = (if fs1 = fs then [] else [join (ROOT_DIR cfg) k])"
  have w1: "fs_written fs1 = fs_written fs @ ws1"
    and i1: "set ws1 \<subseteq> (\<lambda>li. join (ROOT_DIR cfg) (source li)) ` set fx1"
    and p1: "fs_paths fs \<subseteq> fs_paths fs1"
    and t1: "\<forall>p. p \<notin> set ws1 \<longrightarrow> fs_text fs1 p = fs_text fs p \<and> (p \<in> fs_paths fs1 \<longleftrightarrow> p \<in> fs_paths fs)"
  proof -
    from r1(8) show "fs_written fs1 = fs_written fs @ ws1"
      by (auto simp: ws1_def write_file_simps)
    show "set ws1 \<subseteq> (\<lambda>li. join (ROOT_DIR cfg) (source li)) ` set fx1"
    proof (cases "fs1 = fs")
      case True
      then show ?thesis by (simp add: ws1_def)
    next
      case False
      with r1(8) have "fx1 \<noteq> []" by auto
      then obtain x where "x \<in> set fx1" by (cases fx1) auto
      with src1 have "join (ROOT_DIR cfg) k \<in> (\<lambda>li. join (ROOT_DIR cfg) (source li)) ` set fx1"
        by force
      with False show ?thesis by (simp add: ws1_def)
    qed
    from r1(8) show "fs_paths fs \<subseteq> fs_paths fs1"
      by (auto simp: write_file_simps)
    from r1(8) show "\<forall>p. p \<notin> set ws1 \<longrightarrow> fs_text fs1 p = fs_text fs p \<and> (p \<in> fs_paths fs1 \<longleftrightarrow> p \<in> fs_paths fs)"
      by (auto simp: ws1_def write_file_simps)
  qed
  show ?case
  proof (rule exI [of _ "fx1 @ fx2"], rule exI [of _ "mn1 @ mn2"], rule exI [of _ "ws1 @ ws2"], intro conjI)
    show "fixed_links db' = fixed_links db @ fx1 @ fx2" using r1 r2 by simp
    show "manual_review db' = manual_review db @ mn1 @ mn2" using r1 r2 by simp
    have "mset (fx1 @ fx2) + mset (mn1 @ mn2) = (mset fx1 + mset mn1) + (mset fx2 + mset mn2)"
      by simp
    also have "\<dots> = mset (concat (map snd (g # groups)))"
      using r1(3) r2(3) g by simp
    finally show "mset (fx1 @ fx2) + mset (mn1 @ mn2) = mset (concat (map snd (g # groups)))" .
    show "broken_links db' = broken_links db" using r1 r2 by simp
    show "all_files db' = all_files db" using r1 r2 by simp
    show "custom_mappings db' = custom_mappings db" using r1 r2 by simp
    show "file_content db' = file_content db" using r1 r2 by simp
    show "fs_written fs' = fs_written fs @ ws1 @ ws2" using w1 r2(8) by simp
    show "set (ws1 @ ws2) \<subseteq> (\<lambda>li. join (ROOT_DIR cfg) (source li)) ` set (fx1 @ fx2)"
      using i1 r2(9) by auto
    show "fs_paths fs \<subseteq> fs_paths fs'" using p1 r2(10) by blast
    show "\<forall>p. p \<notin> set (ws1 @ ws2) \<longrightarrow> fs_text fs' p = fs_text fs p \<and> (p \<in> fs_paths fs' \<longleftrightarrow> p \<in> fs_paths fs)"
      using t1 r2(11) by simp
  qed
qed

lemma fix_links_result:
  assumes "fix_links cfg (db, fs) = Inr (db', fs')"
  shows "\<exists>fx mn ws. fixed_links db' = fixed_links db @ fx
           \<and> manual_review db' = manual_review db @ mn
           \<and> mset fx + mset mn = mset (broken_links db)
           \<and> broken_links db' = broken_links db \<and> all_files db' = all_files db
           \<and> custom_mappings db' = custom_mappings db \<and> file_content db' = file_content db
           \<and> fs_written fs' = fs_written fs @ ws
           \<and> set ws \<subseteq> (\<lambda>li. join (ROOT_DIR cfg) (source li)) ` set fx
           \<and> fs_paths fs \<subseteq> fs_paths fs'
           \<and> (\<forall>p. p \<notin> set ws \<longrightarrow> fs_text fs' p = fs_text fs p \<and> (p \<in> fs_paths fs' \<longleftrightarrow> p \<in> fs_paths fs))"
proof -
  from assms have run: "for_each (fix_file cfg) (links_by_file (broken_links db)) (db, fs) = Inr (db', fs')"
    by (simp add: fix_links_def)
  have "\<forall>g \<in> set (links_by_file (broken_links db)). \<forall>x \<in> set (snd g). source x = fst g"
    using links_by_file_keys by force
  from fix_groups_result [OF run this]
  show ?thesis by (simp add: links_by_file_mset)
qed

lemma add_by_file_nonempty:
  "g \<in> set (add_by_file li kvs) \<Longrightarrow> \<forall>g \<in> set kvs. snd g \<noteq> [] \<Longrightarrow> snd g \<noteq> []"
proof (induction kvs)
  case Nil
  then show ?case by simp
next
  case (Cons kv kvs)
  obtain k0 v0 where kv: "kv = (k0, v0)" by (cases kv)
  show ?case
  proof (cases "k0 = source li")
    case True
    with Cons.prems kv show ?thesis by auto
  next
    case False
    with Cons.prems(1) kv have "g = (k0, v0) \<or> g \<in> set (add_by_file li kvs)" by simp
    with Cons.IH Cons.prems(2) kv show ?thesis by auto
  qed
qed

text \<open>
  \<open>fix_links\<close> returns when the text of every file with a broken link is in the cache: a
  link whose syntax is not found does not end the run.
\<close>

lemma fix_links_returns:
  assumes "\<forall>b \<in> set (broken_links db). file_content db (source b) \<noteq> None"
  shows "\<exists>r. fix_links cfg (db, fs) = Inr r"
proof -
  define I where "I = (\<lambda>st :: link_database \<times> filesystem. file_content (fst st) = file_content db)"
  have keys: "k \<in> fst ` set (links_by_file (broken_links db)) \<Longrightarrow> file_content db k \<noteq> None" for k
  proof -
    assume "k \<in> fst ` set (links_by_file (broken_links db))"
    then obtain v where kv: "(k, v) \<in> set (links_by_file (broken_links db))" by auto
    have "v \<noteq> []"
    proof -
      have "(k, v) \<in> set (foldl (\<lambda>acc li. add_by_file li acc) kvs bl) \<Longrightarrow>
            (\<forall>g \<in> set kvs. snd g \<noteq> []) \<Longrightarrow> v \<noteq> []" for kvs bl
      proof (induction bl arbitrary: kvs)
        case Nil
        then show ?case by auto
      next
        case (Cons li bl)
        have "\<forall>g \<in> set (add_by_file li kvs). snd g \<noteq> []"
          using Cons.prems(2) add_by_file_nonempty by blast
        with Cons.IH [of "add_by_file li kvs"] Cons.prems(1) show ?case by simp
      qed
      from this [of "[]" "broken_links db"] kv show ?thesis by (simp add: links_by_file_def)
    qed
    then obtain x where x: "x \<in> set v" by (cases v) auto
    with kv have "source x = k" by (rule links_by_file_keys)
    moreover from x kv have "x \<in> set (concat (map snd (links_by_file (broken_links db))))"
      by force
    then have "x \<in> set (broken_links db)"
      by (metis links_by_file_mset set_mset_mset)
    ultimately show ?thesis using assms by auto
  qed
  have "\<exists>s'. for_each (fix_file cfg) (links_by_file (broken_links db)) (db, fs) = Inr s' \<and> I s'"
  proof (rule for_each_total)
    show "I (db, fs)" by (simp add: I_def)
  next
    fix g t
    assume g: "g \<in> set (links_by_file (broken_links db))" and t: "I t"
    obtain k ls where kl: "g = (k, ls)" by (cases g)
    obtain db1 fs1 where t1: "t = (db1, fs1)" by (cases t)
    from keys [of k] g kl have "file_content db k \<noteq> None" by force
    with t t1 have "file_content db1 k \<noteq> None" by (simp add: I_def)
    from fix_file_returns [OF this] obtain r where r: "fix_file cfg (k, ls) (db1, fs1) = Inr r"
      by blast
    obtain db2 fs2 where r2: "r = (db2, fs2)" by (cases r)
    from fix_file_result [OF r [unfolded r2]] have "file_content db2 = file_content db1" by blast
    with t t1 r r2 kl show "\<exists>t'. fix_file cfg g t = Inr t' \<and> I t'" by (simp add: I_def)
  qed
  then show ?thesis by (auto simp: fix_links_def)
qed

text \<open>The analysis: what \<open>check_links\<close> appends to \<open>broken_links\<close>.\<close>

lemma find_best_match_cong:
  assumes "all_files db1 = all_files db2" and "custom_mappings db1 = custom_mappings db2"
  shows "find_best_match cfg db1 l s = find_best_match cfg db2 l s"
  unfolding find_best_match_def assms by (rule refl)

lemma recorded_broken_cong:
  "all_files db1 = all_files db2 \<Longrightarrow> custom_mappings db1 = custom_mappings db2 \<Longrightarrow>
   recorded_broken cfg db1 fs b = recorded_broken cfg db2 fs b"
  by (simp add: recorded_broken_def find_best_match_cong [of db1 db2])

lemma check_link_result:
  assumes "check_link cfg fs s m db = Inr db'"
  shows "all_files db' = all_files db \<and> custom_mappings db' = custom_mappings db
       \<and> file_content db' = file_content db \<and> fixed_links db' = fixed_links db
       \<and> manual_review db' = manual_review db
       \<and> (broken_links db' = broken_links db
          \<or> (\<exists>b. broken_links db' = broken_links db @ [b] \<and> source b = s
                \<and> \<not> skip_link (link b) \<and> hd (py_split CHR ''#'' (link b)) \<noteq> []
                \<and> link_full_path cfg s (hd (py_split CHR ''#'' (link b))) \<notin> fs_paths fs
                \<and> find_best_match cfg db (link b) s = Inr (suggested_fix b)))"
proof -
  obtain t l where m: "m = (t, l)" by (cases m)
  show ?thesis
    using assms unfolding m
    by (auto simp: check_link_def Let_def split: if_splits sum.splits)
qed

lemma check_file_result:
  assumes "check_file cfg fs s db = Inr db'" and "s \<in> set (all_files db)"
  shows "all_files db' = all_files db \<and> custom_mappings db' = custom_mappings db
       \<and> fixed_links db' = fixed_links db \<and> manual_review db' = manual_review db
       \<and> (\<forall>k. file_content db k \<noteq> None \<longrightarrow> file_content db' k \<noteq> None)
       \<and> (\<exists>new. broken_links db' = broken_links db @ new
             \<and> (\<forall>b \<in> set new. recorded_broken cfg db fs b \<and> file_content db' (source b) \<noteq> None))"
proof (cases "join (ROOT_DIR cfg) s \<in> fs_paths fs")
  case False
  with assms have "db' = db" by (simp add: check_file_def)
  then show ?thesis by simp
next
  case True
  with assms obtain content where content: "fs_text fs (join (ROOT_DIR cfg) s) = Some content"
    and loop: "for_each (check_link cfg fs s) (findall content)
                 (db\<lparr>file_content := (file_content db)(s \<mapsto> content)\<rparr>) = Inr db'"
    by (auto simp: check_file_def split: option.splits)
  define db0 where "db0 = db\<lparr>file_content := (file_content db)(s \<mapsto> content)\<rparr>"
  define I where "I = (\<lambda>t :: link_database. all_files t = all_files db \<and> custom_mappings t = custom_mappings db
       \<and> file_content t = file_content db0 \<and> fixed_links t = fixed_links db
       \<and> manual_review t = manual_review db
       \<and> (\<exists>new. broken_links t = broken_links db @ new
             \<and> (\<forall>b \<in> set new. recorded_broken cfg db fs b \<and> source b = s)))"
  have "I db'"
  proof (rule for_each_invariant [OF loop [folded db0_def]])
    show "I db0" by (simp add: I_def db0_def)
  next
    fix m t t'
    assume t: "I t" and step: "check_link cfg fs s m t = Inr t'"
    from t obtain new where new: "broken_links t = broken_links db @ new"
      "\<forall>b \<in> set new. recorded_broken cfg db fs b \<and> source b = s"
      by (auto simp: I_def)
    from t have fr: "all_files t = all_files db" "custom_mappings t = custom_mappings db"
      by (simp_all add: I_def)
    from check_link_result [OF step] have
      frame: "all_files t' = all_files t" "custom_mappings t' = custom_mappings t"
        "file_content t' = file_content t" "fixed_links t' = fixed_links t"
        "manual_review t' = manual_review t"
      and br: "broken_links t' = broken_links t
          \<or> (\<exists>b. broken_links t' = broken_links t @ [b] \<and> source b = s
                \<and> \<not> skip_link (link b) \<and> hd (py_split CHR ''#'' (link b)) \<noteq> []
                \<and> link_full_path cfg s (hd (py_split CHR ''#'' (link b))) \<notin> fs_paths fs
                \<and> find_best_match cfg t (link b) s = Inr (suggested_fix b))"
      by blast+
    from br have "\<exists>new'. broken_links t' = broken_links db @ new'
             \<and> (\<forall>b \<in> set new'. recorded_broken cfg db fs b \<and> source b = s)"
    proof
      assume "broken_links t' = broken_links t"
      with new show ?thesis by auto
    next
      assume "\<exists>b. broken_links t' = broken_links t @ [b] \<and> source b = s
                \<and> \<not> skip_link (link b) \<and> hd (py_split CHR ''#'' (link b)) \<noteq> []
                \<and> link_full_path cfg s (hd (py_split CHR ''#'' (link b))) \<notin> fs_paths fs
                \<and> find_best_match cfg t (link b) s = Inr (suggested_fix b)"
      then obtain b where b: "broken_links t' = broken_links t @ [b]" "source b = s"
        "\<not> skip_link (link b)" "hd (py_split CHR ''#'' (link b)) \<noteq> []"
        "link_full_path cfg s (hd (py_split CHR ''#'' (link b))) \<notin> fs_paths fs"
        "find_best_match cfg t (link b) s = Inr (suggested_fix b)"
        by blast
      from b(6) fr have "find_best_match cfg db (link b) s = Inr (suggested_fix b)"
        by (simp add: find_best_match_cong [of t db])
      with b True assms(2) have "recorded_broken cfg db fs b"
        by (simp add: recorded_broken_def)
      with b(1,2) new show ?thesis
        by (intro exI [of _ "new @ [b]"]) simp
    qed
    with t frame show "I t'" by (simp add: I_def)
  qed
  then show ?thesis by (auto simp: I_def db0_def)
qed

lemma check_files_result:
  assumes "for_each (check_file cfg fs) files db = Inr db'" and "set files \<subseteq> set (all_files db)"
  shows "all_files db' = all_files db \<and> custom_mappings db' = custom_mappings db
       \<and> fixed_links db' = fixed_links db \<and> manual_review db' = manual_review db
       \<and> (\<forall>k. file_content db k \<noteq> None \<longrightarrow> file_content db' k \<noteq> None)
       \<and> (\<exists>new. broken_links db' = broken_links db @ new
             \<and> (\<forall>b \<in> set new. recorded_broken cfg db fs b \<and> file_content db' (source b) \<noteq> None))"
proof -
  define I where "I = (\<lambda>t :: link_database. all_files t = all_files db \<and> custom_mappings t = custom_mappings db
       \<and> fixed_links t = fixed_links db \<and> manual_review t = manual_review db
       \<and> (\<forall>k. file_content db k \<noteq> None \<longrightarrow> file_content t k \<noteq> None)
       \<and> (\<exists>new. broken_links t = broken_links db @ new
             \<and> (\<forall>b \<in> set new. recorded_broken cfg db fs b \<and> file_content t (source b) \<noteq> None)))"
  have "I db'"
  proof (rule for_each_invariant [OF assms(1)])
    show "I db" by (simp add: I_def)
  next
    fix s t t'
    assume s: "s \<in> set files" and t: "I t" and step: "check_file cfg fs s t = Inr t'"
    from t obtain new where new: "broken_links t = broken_links db @ new"
      "\<forall>b \<in> set new. recorded_broken cfg db fs b \<and> file_content t (source b) \<noteq> None"
      by (auto simp: I_def)
    from t have fr: "all_files t = all_files db" "custom_mappings t = custom_mappings db"
      by (simp_all add: I_def)
    with s assms(2) have "s \<in> set (all_files t)" by auto
    from check_file_result [OF step this] obtain new' where r:
      "all_files t' = all_files t" "custom_mappings t' = custom_mappings t"
      "fixed_links t' = fixed_links t" "manual_review t' = manual_review t"
      "\<forall>k. file_content t k \<noteq> None \<longrightarrow> file_content t' k \<noteq> None"
      "broken_links t' = broken_links t @ new'"
      "\<forall>b \<in> set new'. recorded_broken cfg t fs b \<and> file_content t' (source b) \<noteq> None"
      by blast
    have "\<forall>b \<in> set (new @ new'). recorded_broken cfg db fs b \<and> file_content t' (source b) \<noteq> None"
      using new(2) r(5,7) recorded_broken_cong [OF fr] by auto
    with r(6) new(1) have "\<exists>n. broken_links t' = broken_links db @ n
             \<and> (\<forall>b \<in> set n. recorded_broken cfg db fs b \<and> file_content t' (source b) \<noteq> None)"
      by (intro exI [of _ "new @ new'"]) simp
    with t r show "I t'" by (simp add: I_def)
  qed
  then show ?thesis by (simp add: I_def)
qed

text \<open>A whole call of \<open>check_links\<close>, with or without the fixes.\<close>

lemma check_links_result:
  assumes "check_links cfg dry_run (db, fs) = Inr (db', fs')"
  shows "\<exists>new fx mn ws.
           broken_links db' = broken_links db @ new
           \<and> (\<forall>b \<in> set new. recorded_broken cfg db fs b)
           \<and> fixed_links db' = fixed_links db @ fx
           \<and> manual_review db' = manual_review db @ mn
           \<and> (if dry_run then fx = [] \<and> mn = [] \<and> fs' = fs
               else mset fx + mset mn = mset (broken_links db') )
           \<and> all_files db' = all_files db \<and> custom_mappings db' = custom_mappings db
           \<and> fs_written fs' = fs_written fs @ ws
           \<and> set ws \<subseteq> (\<lambda>li. join (ROOT_DIR cfg) (source li)) ` set fx
           \<and> fs_paths fs \<subseteq> fs_paths fs'
           \<and> (\<forall>p. p \<notin> set ws \<longrightarrow> fs_text fs' p = fs_text fs p \<and> (p \<in> fs_paths fs' \<longleftrightarrow> p \<in> fs_paths fs))"
proof -
  from assms obtain db1 where
    scan: "for_each (check_file cfg fs) (all_files db) db = Inr db1"
    and fin: "(if dry_run then Inr (db1, fs) else fix_links cfg (db1, fs)) = Inr (db', fs')"
    by (auto simp: check_links_def split: sum.splits)
  from check_files_result [OF scan] obtain new where s:
    "all_files db1 = all_files db" "custom_mappings db1 = custom_mappings db"
    "fixed_links db1 = fixed_links db" "manual_review db1 = manual_review db"
    "broken_links db1 = broken_links db @ new"
    "\<forall>b \<in> set new. recorded_broken cfg db fs b"
    by auto
  show ?thesis
  proof (cases dry_run)
    case True
    with fin have "db' = db1" "fs' = fs" by simp_all
    with s True show ?thesis
      by (intro exI [of _ new] exI [of _ "[]"]) simp
  next
    case False
    with fin have "fix_links cfg (db1, fs) = Inr (db', fs')" by simp
    from fix_links_result [OF this] obtain fx mn ws where f:
      "fixed_links db' = fixed_links db1 @ fx" "manual_review db' = manual_review db1 @ mn"
      "mset fx + mset mn = mset (broken_links db1)"
      "broken_links db' = broken_links db1" "all_files db' = all_files db1"
      "custom_mappings db' = custom_mappings db1"
      "fs_written fs' = fs_written fs @ ws"
      "set ws \<subseteq> (\<lambda>li. join (ROOT_DIR cfg) (source li)) ` set fx"
      "fs_paths fs \<subseteq> fs_paths fs'"
      "\<forall>p. p \<notin> set ws \<longrightarrow> fs_text fs' p = fs_text fs p \<and> (p \<in> fs_paths fs' \<longleftrightarrow> p \<in> fs_paths fs)"
      by blast
    show ?thesis
      by (rule exI [of _ new], rule exI [of _ fx], rule exI [of _ mn], rule exI [of _ ws])
         (use s f False in simp)
  qed
qed

section \<open>The claims\<close>

text \<open>
  C2. When the override table has an entry for the raw target of a broken link, the
  resolver returns that entry's corrected target, whatever the document index holds: no
  filename heuristic is consulted, also when a heuristic candidate exists. This holds for
  \<open>find_best_match\<close> of link_campaign.py and of simple_link_campaign.py.
\<close>

theorem override_is_authoritative:
  assumes "custom_mappings db broken_link = Some v"
  shows "find_best_match cfg (db\<lparr>all_files := files\<rparr>) broken_link source_file = Inr (Some v)
       \<and> find_best_match_simple cfg (custom_mappings db) files broken_link source_file = Some v"
  using assms by (simp add: find_best_match_def find_best_match_simple_def)

theorem override_is_authoritative_witness:
  "custom_mappings (new_database [] override_ex) ''old.md'' = Some ''new.md''
   \<and> find_best_match cfg_ex (new_database [''docs/old.md'', ''a.md''] override_ex) ''old.md'' ''a.md''
       = Inr (Some ''new.md'')
   \<and> find_best_match cfg_ex (new_database [''docs/old.md'', ''a.md''] Map.empty) ''old.md'' ''a.md''
       = Inr (Some ''docs/old.md'')
   \<and> find_best_match_simple cfg_ex override_ex [''docs/old.md'', ''a.md''] ''old.md'' ''a.md''
       = Some ''new.md''"
proof -
  have h: "custom_mappings (new_database [] override_ex) ''old.md'' = Some ''new.md''"
    by (simp add: new_database_def override_ex_def)
  have c: "find_best_match cfg_ex (new_database [''docs/old.md'', ''a.md''] Map.empty) ''old.md'' ''a.md''
       = Inr (Some ''docs/old.md'')"
    by code_simp
  from override_is_authoritative [OF h, of cfg_ex "[''docs/old.md'', ''a.md'']" "''a.md''"] h c
  show ?thesis by (simp add: new_database_def)
qed

text \<open>
  C5 (the code at the failing input). A link \<^verbatim>\<open>[mail](mailto:x@y.z)\<close> is External, yet
  \<open>check_links\<close> of link_campaign.py resolves it as a path, calls \<open>find_best_match\<close> for it
  and reports it as broken: the guard of line 195 has no \<^verbatim>\<open>mailto:\<close>, which the guard of
  simple_link_campaign.py has (\<open>check_links_in_file\<close> reports nothing for the same file).
\<close>

theorem mailto_link_reported_broken:
  "report (check_links cfg_ex True
             (new_database [''a.md''] Map.empty, fs_one ''[mail](mailto:x@y.z)'' {}))
     = Inr ([\<lparr>source = ''a.md'', linktext = ''mail'', link = ''mailto:x@y.z'',
              suggested_fix = None\<rparr>], [], [])
   \<and> check_links_in_file cfg_ex (fs_one ''[mail](mailto:x@y.z)'' {}) ''a.md'' = ([], [])"
  by code_simp




text \<open>The file name and the anchor of a target \<^verbatim>\<open>path#anchor\<close>.\<close>

lemma py_split_nonempty: "py_split c s \<noteq> []"
  by (induction s) (auto split: list.splits)

lemma py_split_Cons:
  "py_split c (x # xs) =
     (if x = c then [] # py_split c xs else (x # hd (py_split c xs)) # tl (py_split c xs))"
  using py_split_nonempty [of c xs] by (cases "py_split c xs") auto

lemma py_split_no_sep: "c \<notin> set s \<Longrightarrow> py_split c s = [s]"
  by (induction s) (auto simp: py_split_Cons simp del: py_split.simps(2))

lemma py_split_append_sep:
  "c \<notin> set xs \<Longrightarrow> py_split c (xs @ c # ys) = xs # py_split c ys"
  by (induction xs) (auto simp: py_split_Cons simp del: py_split.simps(2))

lemma py_split_append_no_sep:
  "c \<notin> set ys \<Longrightarrow>
   py_split c (xs @ ys) = butlast (py_split c xs) @ [last (py_split c xs) @ ys]"
proof (induction xs)
  case Nil
  then show ?case by (simp add: py_split_no_sep)
next
  case (Cons x xs)
  let ?r = "py_split c xs"
  have r: "?r \<noteq> []" by (rule py_split_nonempty)
  have hd_tl: "hd (butlast ?r @ [last ?r @ ys]) # tl (butlast ?r @ [last ?r @ ys])
               = butlast ?r @ [last ?r @ ys]"
    by simp
  show ?case
  proof (cases "x = c")
    case True
    with Cons r show ?thesis
      by (simp add: py_split_Cons del: py_split.simps(2))
  next
    case False
    show ?thesis
    proof (cases "tl ?r = []")
      case True
      with r have one: "?r = [hd ?r]" by (cases ?r) auto
      then have "butlast ?r = []" "last ?r = hd ?r"
        by (metis butlast.simps(2), metis last.simps)
      with Cons False True show ?thesis
        by (simp add: py_split_Cons del: py_split.simps(2))
    next
      case ne: False
      with r have bl: "butlast ?r = hd ?r # butlast (tl ?r)" "last ?r = last (tl ?r)"
        by (cases ?r; simp)+
      with Cons False ne show ?thesis
        by (simp add: py_split_Cons del: py_split.simps(2))
    qed
  qed
qed

lemma last_py_split_append:
  "c \<notin> set ys \<Longrightarrow> last (py_split c (xs @ ys)) = last (py_split c xs) @ ys"
  by (simp add: py_split_append_no_sep)

lemma py_split_subset: "x \<in> set (py_split c s) \<Longrightarrow> set x \<subseteq> set s"
proof (induction s arbitrary: x)
  case Nil
  then show ?case by simp
next
  case (Cons a s)
  have r: "py_split c s \<noteq> []" by (rule py_split_nonempty)
  show ?case
  proof (cases "a = c")
    case True
    with Cons show ?thesis by (auto simp: py_split_Cons simp del: py_split.simps(2))
  next
    case False
    with Cons.prems have "x = a # hd (py_split c s) \<or> x \<in> set (tl (py_split c s))"
      by (simp add: py_split_Cons del: py_split.simps(2))
    then show ?thesis
    proof
      assume "x = a # hd (py_split c s)"
      with Cons.IH [of "hd (py_split c s)"] r show ?thesis by auto
    next
      assume "x \<in> set (tl (py_split c s))"
      then have "x \<in> set (py_split c s)" by (rule list.set_sel(2) [OF r])
      with Cons.IH [of x] show ?thesis by auto
    qed
  qed
qed

lemma last_py_split_set: "set (last (py_split c s)) \<subseteq> set s"
  using py_split_subset [of "last (py_split c s)" c s] py_split_nonempty [of c s] by simp

lemma anchor_match_append:
  assumes "CHR ''#'' \<notin> set a" and "CHR 0x0A \<notin> set (t @ a)"
  shows "anchor_match (t @ ''#'' @ a) = Some (t, a)"
proof -
  have nl: "takeWhile (\<lambda>c. c \<noteq> CHR 0x0A) (t @ ''#'' @ a) = t @ ''#'' @ a"
    using assms(2) by (intro takeWhile_eq_all_conv [THEN iffD2]) auto
  have tw: "takeWhile (\<lambda>c. c \<noteq> CHR ''#'') (rev a @ ''#'' @ rev t) = rev a"
    using assms(1) by (subst takeWhile_append2) auto
  have dw: "dropWhile (\<lambda>c. c \<noteq> CHR ''#'') (rev a @ ''#'' @ rev t) = ''#'' @ rev t"
    using assms(1) by (subst dropWhile_append2) auto
  show ?thesis
    unfolding anchor_match_def nl Let_def using tw dw by simp
qed

lemma target_and_anchor_append:
  assumes "CHR ''#'' \<notin> set a" and "CHR ''/'' \<notin> set a" and "CHR 0x0A \<notin> set (p @ a)"
  shows "target_and_anchor (p @ ''#'' @ a) = (last (py_split CHR ''/'' p), Some a)"
proof -
  have "last (py_split CHR ''/'' (p @ ''#'' @ a)) = last (py_split CHR ''/'' p) @ ''#'' @ a"
    using assms(2) by (intro last_py_split_append) simp
  moreover have "CHR 0x0A \<notin> set (last (py_split CHR ''/'' p) @ a)"
    using assms(3) last_py_split_set [of "CHR ''/''" p] by auto
  ultimately show ?thesis
    using anchor_match_append [OF assms(1), of "last (py_split CHR ''/'' p)"]
    by (simp add: target_and_anchor_def)
qed

text \<open>
  C4 (counterexample). The override table maps \<^verbatim>\<open>old.md\<close> to \<^verbatim>\<open>new.md\<close>; the broken target is
  \<^verbatim>\<open>old.md#install\<close> and no file is named \<^verbatim>\<open>old.md\<close>. Both resolvers look the whole target up,
  find no entry and no candidate, and return nothing: not \<^verbatim>\<open>new.md#install\<close>.
\<close>

theorem path_override_with_anchor_counterexample:
  "find_best_match cfg_ex (new_database [''a.md''] override_ex) ''old.md#install'' ''a.md'' = Inr None
   \<and> find_best_match cfg_ex (new_database [''a.md''] override_ex) ''old.md#install'' ''a.md''
       \<noteq> Inr (Some ''new.md#install'')
   \<and> find_best_match_simple cfg_ex override_ex [''a.md''] ''old.md#install'' ''a.md'' = None"
  by code_simp

text \<open>
  C4 (amended). The override table is looked up under the whole raw target, anchor
  included. For a target \<^verbatim>\<open>path#anchor\<close> without an entry of its own, an entry for \<^verbatim>\<open>path\<close>
  changes nothing: the result is the one of the filename search. When that search of
  link_campaign.py finds a candidate, the anchor is re-appended to its relative path.
\<close>

theorem override_lookup_uses_whole_target:
  assumes "custom_mappings db (path @ ''#'' @ anchor) = None"
    and "anchor \<noteq> []" and "CHR ''#'' \<notin> set anchor" and "CHR ''/'' \<notin> set anchor"
    and "CHR 0x0A \<notin> set (path @ anchor)"
  shows "find_best_match cfg (db\<lparr>custom_mappings := (custom_mappings db)(path \<mapsto> new)\<rparr>)
             (path @ ''#'' @ anchor) src
           = find_best_match cfg db (path @ ''#'' @ anchor) src
       \<and> find_best_match_simple cfg ((custom_mappings db)(path \<mapsto> new)) files
             (path @ ''#'' @ anchor) src
           = find_best_match_simple cfg (custom_mappings db) files (path @ ''#'' @ anchor) src
       \<and> (\<forall>r. find_best_match cfg db (path @ ''#'' @ anchor) src = Inr (Some r)
              \<longrightarrow> endswith r (''#'' @ anchor))"
proof (intro conjI allI impI)
  have ne: "path @ ''#'' @ anchor \<noteq> path" by simp
  show "find_best_match cfg (db\<lparr>custom_mappings := (custom_mappings db)(path \<mapsto> new)\<rparr>)
             (path @ ''#'' @ anchor) src
           = find_best_match cfg db (path @ ''#'' @ anchor) src"
    using ne assms(1) by (simp add: find_best_match_def)
  show "find_best_match_simple cfg ((custom_mappings db)(path \<mapsto> new)) files
             (path @ ''#'' @ anchor) src
           = find_best_match_simple cfg (custom_mappings db) files (path @ ''#'' @ anchor) src"
    using ne assms(1) by (simp add: find_best_match_simple_def)
next
  fix r
  assume r: "find_best_match cfg db (path @ ''#'' @ anchor) src = Inr (Some r)"
  have ta: "target_and_anchor (path @ ''#'' @ anchor) = (last (py_split CHR ''/'' path), Some anchor)"
    by (rule target_and_anchor_append) (use assms in auto)
  from r assms(1) ta obtain rel where "r = add_anchor rel (Some anchor)"
    by (auto simp: find_best_match_def Let_def split: option.splits sum.splits)
  with assms(2) show "endswith r (''#'' @ anchor)"
    by (simp add: add_anchor_def suffix_def)
qed

theorem override_lookup_uses_whole_target_witness:
  "custom_mappings (new_database [''docs/old.md'', ''a.md''] Map.empty) (''old.md'' @ ''#'' @ ''install'') = None
   \<and> find_best_match cfg_ex (new_database [''docs/old.md'', ''a.md''] override_ex) ''old.md#install'' ''a.md''
       = Inr (Some ''docs/old.md#install'')
   \<and> find_best_match cfg_ex (new_database [''docs/old.md'', ''a.md''] Map.empty) ''old.md#install'' ''a.md''
       = Inr (Some ''docs/old.md#install'')
   \<and> endswith ''docs/old.md#install'' ''#install''"
proof -
  let ?db = "new_database [''docs/old.md'', ''a.md''] Map.empty"
  have h1: "custom_mappings ?db (''old.md'' @ ''#'' @ ''install'') = None"
    by (simp add: new_database_def)
  have h2: "''install'' \<noteq> []" "CHR ''#'' \<notin> set ''install''" "CHR ''/'' \<notin> set ''install''"
    "CHR 0x0A \<notin> set (''old.md'' @ ''install'')"
    by simp_all
  have e: "find_best_match cfg_ex ?db ''old.md#install'' ''a.md'' = Inr (Some ''docs/old.md#install'')"
    by code_simp
  have d: "?db\<lparr>custom_mappings := (custom_mappings ?db)(''old.md'' \<mapsto> ''new.md'')\<rparr>
             = new_database [''docs/old.md'', ''a.md''] override_ex"
    by (simp add: new_database_def override_ex_def)
  from override_lookup_uses_whole_target [OF h1 h2, of cfg_ex "''new.md''" "''a.md''" "[]"] e d h1
  show ?thesis by simp
qed


text \<open>A file of \<open>fix_links\<close> is written only with a text that differs from the cached one.\<close>

lemma fix_file_writes_only_changes:
  assumes "fix_file cfg (k, ls) (db, fs) = Inr (db', fs')" and "file_content db k = Some content"
  shows "fs' = fs \<or> (\<exists>c. c \<noteq> content \<and> fs' = write_file fs (join (ROOT_DIR cfg) k) c)"
  using assms by (auto simp: fix_file_def Let_def split: prod.splits if_splits)

text \<open>
  C10. A run of \<open>check_links\<close> writes a path only if it is the path of a document for which
  the run recorded an applied fix. For every other path (a document without broken links,
  without a suggestion, or whose suggestions all failed the guard of line 253) the text on
  disk after the run is the text before it, and the run did not open it for writing. In a
  dry run nothing is written at all.
\<close>

theorem unfixed_documents_are_not_written:
  assumes "check_links cfg dry_run (new_database files mappings, fs) = Inr (db', fs')"
  shows "\<forall>p. p \<notin> (\<lambda>li. join (ROOT_DIR cfg) (source li)) ` set (fixed_links db')
           \<longrightarrow> fs_text fs' p = fs_text fs p
               \<and> p \<notin> set (drop (length (fs_written fs)) (fs_written fs'))"
proof -
  from check_links_result [OF assms] obtain fx ws where r:
    "fixed_links db' = fixed_links (new_database files mappings) @ fx"
    "fs_written fs' = fs_written fs @ ws"
    "set ws \<subseteq> (\<lambda>li. join (ROOT_DIR cfg) (source li)) ` set fx"
    "\<forall>p. p \<notin> set ws \<longrightarrow> fs_text fs' p = fs_text fs p \<and> (p \<in> fs_paths fs' \<longleftrightarrow> p \<in> fs_paths fs)"
    by blast
  from r(1) have fx: "fixed_links db' = fx" by (simp add: new_database_def)
  show ?thesis
  proof (intro allI impI)
    fix p
    assume "p \<notin> (\<lambda>li. join (ROOT_DIR cfg) (source li)) ` set (fixed_links db')"
    with fx r(3) have "p \<notin> set ws" by auto
    with r(2,4) show "fs_text fs' p = fs_text fs p \<and> p \<notin> set (drop (length (fs_written fs)) (fs_written fs'))"
      by simp
  qed
qed
theorem unfixed_documents_are_not_written_witness:
  "(case check_links cfg_ex False (new_database files_ex Map.empty, fs_ex) of
      Inl e \<Rightarrow> False
    | Inr (db', fs') \<Rightarrow>
        fixed_links db' = [\<lparr>source = ''a.md'', linktext = ''s'', link = ''setup.md'',
                             suggested_fix = Some ''docs/setup.md''\<rparr>]
        \<and> manual_review db' = [\<lparr>source = ''b.md'', linktext = ''n'', link = ''nowhere.md'',
                                   suggested_fix = None\<rparr>]
        \<and> fs_text fs' ''/repo/a.md'' = Some ''[s](docs/setup.md)''
        \<and> fs_written fs' = [''/repo/a.md'']
        \<and> fs_text fs' ''/repo/b.md'' = fs_text fs_ex ''/repo/b.md'')"
proof -
  let ?run = "check_links cfg_ex False (new_database files_ex Map.empty, fs_ex)"
  let ?fixed = "[\<lparr>source = ''a.md'', linktext = ''s'', link = ''setup.md'',
                   suggested_fix = Some ''docs/setup.md''\<rparr>]"
  have e: "(case ?run of
      Inl e \<Rightarrow> False
    | Inr (db', fs') \<Rightarrow>
        fixed_links db' = ?fixed
        \<and> manual_review db' = [\<lparr>source = ''b.md'', linktext = ''n'', link = ''nowhere.md'',
                                   suggested_fix = None\<rparr>]
        \<and> fs_text fs' ''/repo/a.md'' = Some ''[s](docs/setup.md)''
        \<and> fs_written fs' = [''/repo/a.md''])"
    by code_simp
  then obtain db' fs' where run: "?run = Inr (db', fs')"
    and f: "fixed_links db' = ?fixed"
    by (auto split: sum.splits)
  have "''/repo/b.md'' \<notin> (\<lambda>li. join (ROOT_DIR cfg_ex) (source li)) ` set ?fixed"
    by (simp add: cfg_ex_def join_def)
  with unfixed_documents_are_not_written [OF run] f
  have "fs_text fs' ''/repo/b.md'' = fs_text fs_ex ''/repo/b.md''"
    by simp
  with e run show ?thesis by simp
qed

section \<open>The stable sort and the choice of the candidate\<close>

lemma hd_sort_key_min:
  assumes "xs \<noteq> []"
  shows "hd (sort_key f xs) \<in> set xs" and "\<forall>y \<in> set xs. f (hd (sort_key f xs)) \<le> f y"
proof -
  obtain y ys where ys: "sort_key f xs = y # ys"
    using assms by (cases "sort_key f xs") (auto dest: arg_cong [where f = length])
  have "set (y # ys) = set xs" using ys set_sort [of f xs] by simp
  then show "hd (sort_key f xs) \<in> set xs" using ys by auto
  have "sorted (map f (y # ys))" using sorted_sort_key [of f xs] ys by simp
  then have "\<forall>z \<in> set (y # ys). f y \<le> f z" by auto
  with \<open>set (y # ys) = set xs\<close> ys show "\<forall>y \<in> set xs. f (hd (sort_key f xs)) \<le> f y"
    by simp
qed

lemma hd_sort_key_first:
  assumes "xs \<noteq> []"
  shows "hd (sort_key f xs) = hd (filter (\<lambda>y. \<forall>z \<in> set xs. f y \<le> f z) xs)"
proof -
  let ?h = "hd (sort_key f xs)"
  have ne: "sort_key f xs \<noteq> []"
    using assms by (auto dest: arg_cong [where f = length])
  have min: "\<forall>y \<in> set xs. f ?h \<le> f y" and mem: "?h \<in> set xs"
    using hd_sort_key_min [OF assms] by blast+
  have "filter (\<lambda>y. \<forall>z \<in> set xs. f y \<le> f z) xs = filter (\<lambda>y. f y = f ?h) xs"
  proof (rule filter_cong [OF refl])
    fix y assume "y \<in> set xs"
    with min mem show "(\<forall>z \<in> set xs. f y \<le> f z) = (f y = f ?h)"
      by (auto intro: antisym)
  qed
  also have "\<dots> = filter (\<lambda>y. f y = f ?h) (sort_key f xs)"
    by (rule sort_key_stable [symmetric])
  finally have "hd (filter (\<lambda>y. \<forall>z \<in> set xs. f y \<le> f z) xs)
                  = hd (filter (\<lambda>y. f y = f ?h) (sort_key f xs))"
    by simp
  also have "\<dots> = ?h"
    using ne by (cases "sort_key f xs") auto
  finally show ?thesis by simp
qed

lemma best_candidate_first_minimal:
  "best_candidate cfg files t s =
     (case minimal_candidates cfg files t s of [] \<Rightarrow> None | m # _ \<Rightarrow> Some (fst m))"
proof (cases "candidates cfg files t s = []")
  case True
  then show ?thesis by (simp add: best_candidate_def minimal_candidates_def)
next
  case False
  let ?c = "candidates cfg files t s"
  have ne: "sort_key snd ?c \<noteq> []"
    using False by (auto dest: arg_cong [where f = length])
  have h: "hd (sort_key snd ?c) = hd (minimal_candidates cfg files t s)"
    using hd_sort_key_first [OF False, of snd] by (simp add: minimal_candidates_def Let_def)
  have "hd (sort_key snd ?c) \<in> set (minimal_candidates cfg files t s)"
    using hd_sort_key_min [OF False, of snd] by (simp add: minimal_candidates_def Let_def)
  then have "minimal_candidates cfg files t s \<noteq> []" by auto
  with ne h show ?thesis
    by (cases "sort_key snd ?c"; cases "minimal_candidates cfg files t s")
       (simp_all add: best_candidate_def)
qed

lemma mset_candidates:
  assumes "mset files' = mset files"
  shows "mset (candidates cfg files' t s) = mset (candidates cfg files t s)"
proof -
  have f: "mset (map g (filter P files')) = mset (map g (filter P files))" for g :: "string \<Rightarrow> string \<times> nat" and P
    using assms by (metis mset_filter mset_map)
  have a: "mset (scan_suffix cfg files' t s) = mset (scan_suffix cfg files t s)"
    and b: "mset (scan_basename cfg files' t s) = mset (scan_basename cfg files t s)"
    by (simp_all only: scan_suffix_def scan_basename_def f)
  from a have "scan_suffix cfg files' t s = [] \<longleftrightarrow> scan_suffix cfg files t s = []"
    by (metis mset_zero_iff)
  with a b show ?thesis by (simp add: candidates_def Let_def)
qed

lemma best_candidate_without_ties:
  assumes "mset files' = mset files" and "tie_free cfg files t s"
  shows "best_candidate cfg files' t s = best_candidate cfg files t s"
proof -
  have "set (candidates cfg files' t s) = set (candidates cfg files t s)"
    using mset_candidates [OF assms(1)] by (metis set_mset_mset)
  then have eq: "set (minimal_candidates cfg files' t s) = set (minimal_candidates cfg files t s)"
    by (simp add: minimal_candidates_def Let_def)
  show ?thesis
  proof (cases "minimal_candidates cfg files t s")
    case Nil
    with eq have "minimal_candidates cfg files' t s = []" by simp
    with Nil show ?thesis by (simp add: best_candidate_first_minimal)
  next
    case (Cons m ms)
    with eq obtain m' ms' where c': "minimal_candidates cfg files' t s = m' # ms'"
      by (cases "minimal_candidates cfg files' t s") auto
    with eq have "m' \<in> set (minimal_candidates cfg files t s)" by auto
    moreover have "m \<in> set (minimal_candidates cfg files t s)" using Cons by simp
    ultimately have "m' = m" using assms(2) by (simp add: tie_free_def)
    with Cons c' show ?thesis by (simp add: best_candidate_first_minimal)
  qed
qed

text \<open>
  C7 (counterexample). Two documents named \<^verbatim>\<open>config.md\<close> lie at the same distance from
  \<^verbatim>\<open>a.md\<close>. The corpus is the same set of files in both runs; the run whose iteration over the
  set meets \<^verbatim>\<open>x/config.md\<close> first selects it, the other run selects \<^verbatim>\<open>y/config.md\<close>.
\<close>

theorem tie_break_counterexample:
  "set [''x/config.md'', ''y/config.md'', ''a.md''] = set [''y/config.md'', ''a.md'', ''x/config.md'']
   \<and> distance cfg_ex ''a.md'' ''x/config.md'' = distance cfg_ex ''a.md'' ''y/config.md''
   \<and> find_best_match cfg_ex (new_database [''x/config.md'', ''y/config.md'', ''a.md''] Map.empty)
        ''config.md'' ''a.md'' = Inr (Some ''x/config.md'')
   \<and> find_best_match cfg_ex (new_database [''y/config.md'', ''a.md'', ''x/config.md''] Map.empty)
        ''config.md'' ''a.md'' = Inr (Some ''y/config.md'')"
proof (intro conjI)
  show "set [''x/config.md'', ''y/config.md'', ''a.md''] = set [''y/config.md'', ''a.md'', ''x/config.md'']"
    by auto
  show "distance cfg_ex ''a.md'' ''x/config.md'' = distance cfg_ex ''a.md'' ''y/config.md''"
    by code_simp
  show "find_best_match cfg_ex (new_database [''x/config.md'', ''y/config.md'', ''a.md''] Map.empty)
        ''config.md'' ''a.md'' = Inr (Some ''x/config.md'')"
    by code_simp
  show "find_best_match cfg_ex (new_database [''y/config.md'', ''a.md'', ''x/config.md''] Map.empty)
        ''config.md'' ''a.md'' = Inr (Some ''y/config.md'')"
    by code_simp
qed

text \<open>
  C7 (amended). The matches are sorted by distance alone with a stable sort: among the
  candidates at minimal distance, the one that the iteration over the file set meets first
  is selected. No order on the candidates themselves breaks a tie. When no two different
  candidates are at minimal distance, the result of \<open>find_best_match\<close> is the same for every
  order of iteration over the same files.
\<close>

theorem selection_follows_iteration_order:
  assumes "mset files' = mset files"
    and "tie_free cfg files (fst (target_and_anchor l)) s"
  shows "best_candidate cfg files t s =
           (case minimal_candidates cfg files t s of [] \<Rightarrow> None | m # _ \<Rightarrow> Some (fst m))
       \<and> find_best_match cfg (db\<lparr>all_files := files'\<rparr>) l s
           = find_best_match cfg (db\<lparr>all_files := files\<rparr>) l s"
proof
  show "best_candidate cfg files t s =
           (case minimal_candidates cfg files t s of [] \<Rightarrow> None | m # _ \<Rightarrow> Some (fst m))"
    by (rule best_candidate_first_minimal)
  obtain tf an where ta: "target_and_anchor l = (tf, an)" by (cases "target_and_anchor l")
  from assms(2) ta have "tie_free cfg files tf s" by simp
  from best_candidate_without_ties [OF assms(1) this]
  have b: "best_candidate cfg files' tf s = best_candidate cfg files tf s" .
  show "find_best_match cfg (db\<lparr>all_files := files'\<rparr>) l s
           = find_best_match cfg (db\<lparr>all_files := files\<rparr>) l s"
    by (cases "custom_mappings db l") (simp_all add: find_best_match_def ta b)
qed

theorem selection_follows_iteration_order_witness:
  "mset [''y/config.md'', ''x/a.md'', ''x/sub/config.md''] = mset [''x/sub/config.md'', ''y/config.md'', ''x/a.md'']
   \<and> tie_free cfg_ex [''x/sub/config.md'', ''y/config.md'', ''x/a.md''] (fst (target_and_anchor ''config.md'')) ''x/a.md''
   \<and> minimal_candidates cfg_ex [''x/sub/config.md'', ''y/config.md'', ''x/a.md''] ''config.md'' ''x/a.md''
        = [(''x/sub/config.md'', 1)]
   \<and> best_candidate cfg_ex [''x/sub/config.md'', ''y/config.md'', ''x/a.md''] ''config.md'' ''x/a.md''
        = Some ''x/sub/config.md''
   \<and> find_best_match cfg_ex (new_database [''y/config.md'', ''x/a.md'', ''x/sub/config.md''] Map.empty)
        ''config.md'' ''x/a.md''
      = find_best_match cfg_ex (new_database [''x/sub/config.md'', ''y/config.md'', ''x/a.md''] Map.empty)
        ''config.md'' ''x/a.md''
   \<and> find_best_match cfg_ex (new_database [''x/sub/config.md'', ''y/config.md'', ''x/a.md''] Map.empty)
        ''config.md'' ''x/a.md'' = Inr (Some ''sub/config.md'')"
proof -
  let ?f = "[''x/sub/config.md'', ''y/config.md'', ''x/a.md'']"
  let ?f' = "[''y/config.md'', ''x/a.md'', ''x/sub/config.md'']"
  have h1: "mset ?f' = mset ?f" by simp
  have ta: "fst (target_and_anchor ''config.md'') = ''config.md''"
    by code_simp
  have m: "minimal_candidates cfg_ex ?f ''config.md'' ''x/a.md'' = [(''x/sub/config.md'', 1)]"
    by code_simp
  have h2: "tie_free cfg_ex ?f (fst (target_and_anchor ''config.md'')) ''x/a.md''"
    unfolding ta tie_free_def m by simp
  have b: "best_candidate cfg_ex ?f ''config.md'' ''x/a.md'' = Some ''x/sub/config.md''"
    by code_simp
  have r: "find_best_match cfg_ex (new_database ?f Map.empty) ''config.md'' ''x/a.md''
             = Inr (Some ''sub/config.md'')"
    by code_simp
  have d: "(new_database [] Map.empty)\<lparr>all_files := fl\<rparr> = new_database fl Map.empty" for fl
    by (simp add: new_database_def)
  note t = selection_follows_iteration_order [OF h1 h2, of "''config.md''" "new_database [] Map.empty",
      unfolded d]
  from t have e: "find_best_match cfg_ex (new_database ?f' Map.empty) ''config.md'' ''x/a.md''
      = find_best_match cfg_ex (new_database ?f Map.empty) ''config.md'' ''x/a.md''"
    by (rule conjunct2)
  from h1 h2 m b e r show ?thesis by (intro conjI)
qed

text \<open>
  C6 (the code at the failing input). The broken link \<^verbatim>\<open>readme.md\<close> of \<^verbatim>\<open>docs/guide.md\<close> has
  one candidate whose name matches exactly, \<^verbatim>\<open>x/y/readme.md\<close>, and one whose name matches only
  when case is ignored, \<^verbatim>\<open>docs/README.md\<close>. The first scan of link_campaign.py lower-cases
  both sides, so it already takes both, and the nearer \<^verbatim>\<open>README.md\<close> is suggested. The first
  scan of simple_link_campaign.py compares the names as they are and suggests the exact
  match.
\<close>

theorem first_scan_ignores_case:
  "scan_suffix cfg_ex [''docs/guide.md'', ''docs/README.md'', ''x/y/readme.md''] ''readme.md'' ''docs/guide.md''
     = [(''docs/README.md'', 1), (''x/y/readme.md'', 3)]
   \<and> find_best_match cfg_ex
         (new_database [''docs/guide.md'', ''docs/README.md'', ''x/y/readme.md''] Map.empty)
         ''readme.md'' ''docs/guide.md'' = Inr (Some ''README.md'')
   \<and> find_best_match_simple cfg_ex Map.empty
         [''docs/guide.md'', ''docs/README.md'', ''x/y/readme.md'']
         ''readme.md'' ''docs/guide.md'' = Some ''../x/y/readme.md''"
proof (intro conjI)
  show "scan_suffix cfg_ex [''docs/guide.md'', ''docs/README.md'', ''x/y/readme.md''] ''readme.md'' ''docs/guide.md''
     = [(''docs/README.md'', 1), (''x/y/readme.md'', 3)]"
    by code_simp
  show "find_best_match cfg_ex
         (new_database [''docs/guide.md'', ''docs/README.md'', ''x/y/readme.md''] Map.empty)
         ''readme.md'' ''docs/guide.md'' = Inr (Some ''README.md'')"
    by code_simp
  show "find_best_match_simple cfg_ex Map.empty
         [''docs/guide.md'', ''docs/README.md'', ''x/y/readme.md'']
         ''readme.md'' ''docs/guide.md'' = Some ''../x/y/readme.md''"
    by code_simp
qed

section \<open>Splitting, joining and normalising paths\<close>

lemma sep_join_Cons: "ys \<noteq> [] \<Longrightarrow> sep_join s (x # ys) = x @ s @ sep_join s ys"
  by (cases ys) simp_all

lemma sep_join_append:
  "xs \<noteq> [] \<Longrightarrow> ys \<noteq> [] \<Longrightarrow> sep_join s (xs @ ys) = sep_join s xs @ s @ sep_join s ys"
proof (induction xs)
  case Nil
  then show ?case by simp
next
  case (Cons x xs)
  show ?case
  proof (cases "xs = []")
    case True
    with Cons.prems show ?thesis by (simp add: sep_join_Cons)
  next
    case False
    with Cons show ?thesis by (simp add: sep_join_Cons)
  qed
qed

lemma set_sep_join: "set (sep_join s xs) \<subseteq> set s \<union> \<Union> (set ` set xs)"
proof (induction xs)
  case Nil
  then show ?case by simp
next
  case (Cons x xs)
  then show ?case by (cases "xs = []") (auto simp: sep_join_Cons)
qed

lemma sep_join_eq_Nil: "sep_join s xs = [] \<Longrightarrow> \<forall>x \<in> set xs. x \<noteq> [] \<Longrightarrow> xs = []"
  by (cases xs; cases "tl xs") (auto simp: sep_join_Cons)

lemma hd_sep_join: "xs \<noteq> [] \<Longrightarrow> hd xs \<noteq> [] \<Longrightarrow> hd (sep_join s xs) = hd (hd xs)"
  by (cases xs; cases "tl xs") (auto simp: sep_join_Cons)

lemma py_split_sep_join:
  "xs \<noteq> [] \<Longrightarrow> \<forall>x \<in> set xs. c \<notin> set x \<Longrightarrow> py_split c (sep_join [c] xs) = xs"
proof (induction xs)
  case Nil
  then show ?case by simp
next
  case (Cons x xs)
  show ?case
  proof (cases "xs = []")
    case True
    with Cons.prems show ?thesis by (simp add: py_split_no_sep)
  next
    case False
    with Cons show ?thesis
      by (simp add: sep_join_Cons py_split_append_sep del: py_split.simps)
  qed
qed

lemma sep_join_py_split: "sep_join [c] (py_split c s) = s"
proof (induction s)
  case Nil
  then show ?case by simp
next
  case (Cons x s)
  have r: "py_split c s \<noteq> []" by (rule py_split_nonempty)
  then have ht: "hd (py_split c s) # tl (py_split c s) = py_split c s" by simp
  show ?case
  proof (cases "x = c")
    case True
    with Cons r show ?thesis
      by (simp add: py_split_Cons sep_join_Cons del: py_split.simps(2))
  next
    case False
    have "sep_join [c] ((x # hd (py_split c s)) # tl (py_split c s))
            = x # sep_join [c] (hd (py_split c s) # tl (py_split c s))"
      by (cases "tl (py_split c s)") simp_all
    with False Cons ht show ?thesis
      by (simp add: py_split_Cons del: py_split.simps(2))
  qed
qed

lemma py_split_no_sep_in_parts: "x \<in> set (py_split c s) \<Longrightarrow> c \<notin> set x"
proof (induction s arbitrary: x)
  case Nil
  then show ?case by simp
next
  case (Cons a s)
  have r: "py_split c s \<noteq> []" by (rule py_split_nonempty)
  show ?case
  proof (cases "a = c")
    case True
    with Cons show ?thesis by (auto simp: py_split_Cons simp del: py_split.simps(2))
  next
    case False
    with Cons.prems have "x = a # hd (py_split c s) \<or> x \<in> set (tl (py_split c s))"
      by (simp add: py_split_Cons del: py_split.simps(2))
    then show ?thesis
    proof
      assume "x = a # hd (py_split c s)"
      with Cons.IH [of "hd (py_split c s)"] r False show ?thesis by auto
    next
      assume "x \<in> set (tl (py_split c s))"
      then have "x \<in> set (py_split c s)" by (rule list.set_sel(2) [OF r])
      with Cons.IH [of x] show ?thesis by auto
    qed
  qed
qed

text \<open>The loop of \<open>normpath\<close> on names and on \<^verbatim>\<open>..\<close>.\<close>

lemma norm_names: "\<forall>x \<in> set xs. seg_ok x \<Longrightarrow> foldl (norm_step b) acc xs = acc @ xs"
  by (induction xs arbitrary: acc) (auto simp: norm_step_def seg_ok_def)

lemma norm_dots:
  "\<forall>x \<in> set acc. seg_ok x \<Longrightarrow>
   foldl (norm_step True) acc (replicate n ''..'') = take (length acc - n) acc"
proof (induction n arbitrary: acc)
  case 0
  then show ?case by simp
next
  case (Suc n)
  show ?case
  proof (cases "acc = []")
    case True
    have st: "norm_step True [] ''..'' = []"
      by (simp add: norm_step_def)
    have "foldl (norm_step True) [] (replicate k ''..'') = []" for k
      by (induction k) (simp_all add: st)
    from this [of "Suc n"] True show ?thesis by simp
  next
    case False
    with Suc.prems have l: "last acc \<noteq> ''..''" by (auto simp: seg_ok_def)
    from False l have st: "norm_step True acc ''..'' = butlast acc"
      by (simp add: norm_step_def)
    have "\<forall>x \<in> set (butlast acc). seg_ok x"
      using Suc.prems by (auto dest: in_set_butlastD)
    from Suc.IH [OF this] st show ?thesis
      by (simp add: butlast_conv_take)
  qed
qed

lemma norm_skip_dot: "norm_step b acc ''.'' = acc" and norm_skip_empty: "norm_step b acc [] = acc"
  by (simp_all add: norm_step_def)

text \<open>The common prefix.\<close>

lemma common_len_le: "common_len xs ys \<le> length xs \<and> common_len xs ys \<le> length ys"
  by (induction xs ys rule: common_len.induct) auto

lemma common_len_take: "take (common_len xs ys) xs = take (common_len xs ys) ys"
  by (induction xs ys rule: common_len.induct) auto

lemma common_len_append: "common_len (r @ xs) (r @ ys) = length r + common_len xs ys"
  by (induction r) auto

lemma common_len_prefix: "common_len r (r @ ys) = length r"
  using common_len_append [of r "[]" ys] by simp

text \<open>Absolute paths given by their components.\<close>

lemma last_sep_join:
  "xs \<noteq> [] \<Longrightarrow> last xs \<noteq> [] \<Longrightarrow> sep_join s xs \<noteq> [] \<and> last (sep_join s xs) = last (last xs)"
proof (induction xs)
  case Nil
  then show ?case by simp
next
  case (Cons x xs)
  then show ?case by (cases "xs = []") (auto simp: sep_join_Cons)
qed

lemma sep_join_nonempty: "xs \<noteq> [] \<Longrightarrow> hd xs \<noteq> [] \<Longrightarrow> sep_join s xs \<noteq> []"
  by (cases xs; cases "tl xs") (auto simp: sep_join_Cons)

lemma abs_of_Nil: "abs_of [] = ''/''"
  by (simp add: abs_of_def)

lemma py_split_abs_of:
  assumes "\<forall>x \<in> set xs. CHR ''/'' \<notin> set x"
  shows "py_split CHR ''/'' (abs_of xs) = [] # (if xs = [] then [[]] else xs)"
proof (cases "xs = []")
  case True
  then show ?thesis by (simp add: abs_of_def)
next
  case False
  with assms have "py_split CHR ''/'' (sep_join ''/'' xs) = xs"
    by (intro py_split_sep_join) auto
  with False show ?thesis by (simp add: abs_of_def)
qed

lemma no_double_slash:
  assumes "zs \<noteq> [] \<longrightarrow> hd zs \<noteq> [] \<and> CHR ''/'' \<notin> set (hd zs)"
  shows "\<not> startswith (sep_join ''/'' zs) ''/''"
proof (cases "zs = []")
  case True
  then show ?thesis by simp
next
  case False
  with assms have h: "hd zs \<noteq> []" "CHR ''/'' \<notin> set (hd zs)" by auto
  from False h(1) have "sep_join ''/'' zs \<noteq> []" by (rule sep_join_nonempty)
  moreover from False h(1) have "hd (sep_join ''/'' zs) = hd (hd zs)" by (rule hd_sep_join)
  moreover from h have "hd (hd zs) \<noteq> CHR ''/''" by (cases "hd zs") auto
  ultimately show ?thesis by (cases "sep_join ''/'' zs") auto
qed

lemma initial_slashes_abs_of:
  assumes "zs \<noteq> [] \<longrightarrow> hd zs \<noteq> [] \<and> CHR ''/'' \<notin> set (hd zs)"
  shows "initial_slashes (abs_of zs) = 1"
proof -
  from no_double_slash [OF assms] have "\<not> startswith (abs_of zs) ''//''"
    by (simp add: abs_of_def)
  then show ?thesis by (simp add: initial_slashes_def abs_of_def)
qed

lemma normpath_abs_of:
  assumes "\<forall>x \<in> set zs. CHR ''/'' \<notin> set x" and "zs \<noteq> [] \<longrightarrow> hd zs \<noteq> []"
  shows "normpath (abs_of zs) = abs_of (foldl (norm_step True) [] zs)"
proof -
  have n: "initial_slashes (abs_of zs) = 1"
    using assms by (intro initial_slashes_abs_of) auto
  have "foldl (norm_step True) [] (py_split CHR ''/'' (abs_of zs)) = foldl (norm_step True) [] zs"
    by (simp add: py_split_abs_of [OF assms(1)] norm_skip_empty)
  with n show ?thesis
    by (simp add: normpath_def abs_of_def Let_def)
qed

lemma normpath_abs_of_names:
  "\<forall>x \<in> set xs. seg_ok x \<Longrightarrow> normpath (abs_of xs) = abs_of xs"
proof -
  assume ok: "\<forall>x \<in> set xs. seg_ok x"
  then have "normpath (abs_of xs) = abs_of (foldl (norm_step True) [] xs)"
    by (intro normpath_abs_of) (auto simp: seg_ok_def)
  with ok show ?thesis by (simp add: norm_names)
qed

lemma abs_list_abs_of:
  assumes "\<forall>x \<in> set xs. seg_ok x"
  shows "abs_list wd (abs_of xs) = xs"
proof -
  have "abspath wd (abs_of xs) = abs_of xs"
    using normpath_abs_of_names [OF assms] by (simp add: abspath_def abs_of_def)
  moreover have "\<forall>x \<in> set xs. CHR ''/'' \<notin> set x" using assms by (simp add: seg_ok_def)
  moreover have "filter (\<lambda>x. x \<noteq> []) xs = xs" using assms by (simp add: seg_ok_def)
  ultimately show ?thesis by (simp add: abs_list_def py_split_abs_of)
qed

lemma relpath_abs_of:
  assumes "\<forall>x \<in> set p. seg_ok x" and "\<forall>x \<in> set s. seg_ok x"
  shows "relpath wd (abs_of p) (abs_of s) =
           Inr (let rel_list = replicate (length s - common_len s p) ''..'' @ drop (common_len s p) p
                in if rel_list = [] then ''.'' else sep_join ''/'' rel_list)"
  using assms by (simp add: relpath_def abs_list_abs_of Let_def) (simp add: abs_of_def)

lemma dirname_abs_of:
  assumes "\<forall>x \<in> set (xs @ [y]). x \<noteq> [] \<and> CHR ''/'' \<notin> set x"
  shows "dirname (abs_of (xs @ [y])) = abs_of xs"
proof -
  have y: "CHR ''/'' \<notin> set y" using assms by simp
  show ?thesis
  proof (cases "xs = []")
    case True
    have "dropWhile (\<lambda>c. c \<noteq> CHR ''/'') (rev y @ ''/'') = ''/''"
      using y by (subst dropWhile_append2) auto
    with True show ?thesis by (simp add: dirname_def abs_of_def)
  next
    case False
    let ?j = "sep_join ''/'' xs"
    from False assms have lx: "last xs \<noteq> []" "CHR ''/'' \<notin> set (last xs)" by auto
    from last_sep_join [OF False lx(1)] have j: "?j \<noteq> []" "last ?j = last (last xs)" by auto
    with lx have lj: "last ?j \<noteq> CHR ''/''" by (metis last_in_set)
    have p: "abs_of (xs @ [y]) = ''/'' @ ?j @ ''/'' @ y"
      using False by (simp add: abs_of_def sep_join_append)
    have dw: "dropWhile (\<lambda>c. c \<noteq> CHR ''/'') (rev y @ ''/'' @ rev ?j @ ''/'') = ''/'' @ rev ?j @ ''/''"
      using y by (subst dropWhile_append2) auto
    have hd: "rev (dropWhile (\<lambda>c. c \<noteq> CHR ''/'') (rev (abs_of (xs @ [y])))) = ''/'' @ ?j @ ''/''"
      using dw by (simp add: p)
    have ne: "''/'' @ ?j @ ''/'' \<noteq> replicate (length (''/'' @ ?j @ ''/'')) CHR ''/''"
    proof
      assume "''/'' @ ?j @ ''/'' = replicate (length (''/'' @ ?j @ ''/'')) CHR ''/''"
      then have "set (''/'' @ ?j @ ''/'') \<subseteq> {CHR ''/''}" by (metis set_replicate_conv_if empty_subsetI subset_refl)
      moreover have "last ?j \<in> set ?j" using j(1) by simp
      ultimately show False using lj by auto
    qed
    have "rev ?j \<noteq> []" using j(1) by simp
    then obtain c cs where rj: "rev ?j = c # cs" by (cases "rev ?j") auto
    with j(1) have "c = last ?j" by (metis last_rev list.sel(1) rev_rev_ident hd_rev)
    with lj have c: "c \<noteq> CHR ''/''" by simp
    have rs: "rstrip_sep (''/'' @ ?j @ ''/'') = ''/'' @ ?j"
      using c rj by (simp add: rstrip_sep_def)
    show ?thesis
      unfolding dirname_def Let_def hd using ne rs by (simp add: abs_of_def)
  qed
qed

lemma join_abs_of:
  assumes "\<forall>x \<in> set s. x \<noteq> [] \<and> CHR ''/'' \<notin> set x"
    and "rs \<noteq> []" and "hd rs \<noteq> []" and "CHR ''/'' \<notin> set (hd rs)"
  shows "join (abs_of s) (sep_join ''/'' rs) = abs_of (s @ rs)"
proof -
  have b: "\<not> startswith (sep_join ''/'' rs) ''/''"
    using assms(2-4) by (intro no_double_slash) simp
  show ?thesis
  proof (cases "s = []")
    case True
    with b show ?thesis by (simp add: join_def abs_of_def)
  next
    case False
    with assms(1) have ls: "last s \<noteq> []" "CHR ''/'' \<notin> set (last s)" by auto
    from last_sep_join [OF False ls(1)] have j: "sep_join ''/'' s \<noteq> []"
      "last (sep_join ''/'' s) = last (last s)" by auto
    with ls have "last (abs_of s) \<noteq> CHR ''/''"
      by (simp add: abs_of_def) (metis last_in_set)
    then have "\<not> endswith (abs_of s) ''/''"
      by (auto simp: suffix_def)
    moreover have "abs_of s \<noteq> []" by (simp add: abs_of_def)
    ultimately show ?thesis
      using b False assms(2) by (simp add: join_def abs_of_def sep_join_append)
  qed
qed

text \<open>
  The round trip: the relative path from a directory to a file, joined to the directory
  and normalised, is the file.
\<close>

lemma relpath_under_root:
  assumes r: "\<forall>x \<in> set r. seg_ok x" and b: "\<forall>x \<in> set b. seg_ok x" and d: "\<forall>x \<in> set d. seg_ok x"
    and rel: "relpath wd (abs_of (r @ b)) (abs_of (r @ d)) = Inr rel"
  shows "normpath (join (abs_of (r @ d)) rel) = abs_of (r @ b)"
    and "rel \<noteq> []"
    and "set rel \<subseteq> {CHR ''.'', CHR ''/''} \<union> \<Union> (set ` set b)"
proof -
  let ?s = "r @ d" and ?p = "r @ b"
  define j where "j = common_len d b"
  define rl where "rl = replicate (length d - j) ''..'' @ drop j b"
  have i: "common_len ?s ?p = length r + j"
    by (simp add: common_len_append j_def)
  have jle: "j \<le> length d" "j \<le> length b"
    using common_len_le [of d b] by (simp_all add: j_def)
  have oks: "\<forall>x \<in> set ?s. seg_ok x" and okp: "\<forall>x \<in> set ?p. seg_ok x"
    using r b d by auto
  have "replicate (length ?s - common_len ?s ?p) ''..'' @ drop (common_len ?s ?p) ?p = rl"
    unfolding i rl_def by simp
  with relpath_abs_of [OF okp oks, of wd]
  have "relpath wd (abs_of ?p) (abs_of ?s) = Inr (if rl = [] then ''.'' else sep_join ''/'' rl)"
    by (simp only: Let_def)
  with rel have rel_eq: "rel = (if rl = [] then ''.'' else sep_join ''/'' rl)"
    by simp
  have plain: "x \<noteq> [] \<and> CHR ''/'' \<notin> set x" if "seg_ok x" for x
    using that by (simp add: seg_ok_def)
  have slash: "\<forall>x \<in> set ?s. x \<noteq> [] \<and> CHR ''/'' \<notin> set x"
    using oks plain by blast
  have ok_rl: "\<forall>x \<in> set rl. x \<noteq> [] \<and> CHR ''/'' \<notin> set x"
  proof
    fix x assume "x \<in> set rl"
    then have "x = ''..'' \<or> x \<in> set b"
      by (auto simp: rl_def dest: in_set_dropD)
    then show "x \<noteq> [] \<and> CHR ''/'' \<notin> set x"
      using b plain by auto
  qed
  show "normpath (join (abs_of ?s) rel) = abs_of ?p"
  proof (cases "rl = []")
    case True
    then have "length d = j" "length b = j" using jle by (simp_all add: rl_def)
    with common_len_take [of d b] have "d = b" by (simp add: j_def)
    have "join (abs_of ?s) ''.'' = abs_of (?s @ [''.''])"
      using join_abs_of [OF slash, of "[''.'']"] by simp
    moreover have "normpath (abs_of (?s @ [''.''])) = abs_of (foldl (norm_step True) [] (?s @ [''.'']))"
      using slash by (intro normpath_abs_of) (auto simp: hd_append)
    moreover have "foldl (norm_step True) [] (?s @ [''.'']) = ?s"
      using norm_names [OF oks, of True "[]"] by (simp add: norm_skip_dot)
    ultimately show ?thesis using True rel_eq \<open>d = b\<close> by simp
  next
    case False
    then have hd_rl: "hd rl \<noteq> []" "CHR ''/'' \<notin> set (hd rl)" using ok_rl by auto
    have "join (abs_of ?s) (sep_join ''/'' rl) = abs_of (?s @ rl)"
      using join_abs_of [OF slash False hd_rl] .
    moreover have "normpath (abs_of (?s @ rl)) = abs_of (foldl (norm_step True) [] (?s @ rl))"
      using slash ok_rl False by (intro normpath_abs_of) (auto simp: hd_append)
    moreover have "foldl (norm_step True) [] (?s @ rl) = ?p"
    proof -
      have "foldl (norm_step True) [] ?s = ?s"
        using norm_names [OF oks, of True "[]"] by simp
      moreover have "foldl (norm_step True) ?s (replicate (length d - j) ''..'') = r @ take j d"
        using norm_dots [OF oks, of "length d - j"] jle by simp
      moreover have "\<forall>x \<in> set (drop j b). seg_ok x" using b by (auto dest: in_set_dropD)
      then have "foldl (norm_step True) (r @ take j d) (drop j b) = (r @ take j d) @ drop j b"
        by (rule norm_names)
      moreover have "take j d = take j b" using common_len_take [of d b] by (simp add: j_def)
      ultimately show ?thesis by (simp add: rl_def)
    qed
    ultimately show ?thesis using False rel_eq by simp
  qed
  show "rel \<noteq> []"
  proof (cases "rl = []")
    case True
    with rel_eq show ?thesis by simp
  next
    case False
    with ok_rl have "sep_join ''/'' rl \<noteq> []" by (intro sep_join_nonempty) auto
    with False rel_eq show ?thesis by simp
  qed
  show "set rel \<subseteq> {CHR ''.'', CHR ''/''} \<union> \<Union> (set ` set b)"
  proof (cases "rl = []")
    case True
    with rel_eq show ?thesis by simp
  next
    case False
    have "\<Union> (set ` set rl) \<subseteq> {CHR ''.''} \<union> \<Union> (set ` set b)"
      by (auto simp: rl_def dest: in_set_dropD)
    with set_sep_join [of "''/''" rl] have "set (sep_join ''/'' rl) \<subseteq> {CHR ''.'', CHR ''/''} \<union> \<Union> (set ` set b)"
      by auto
    with False rel_eq show ?thesis by simp
  qed
qed

text \<open>Well-formed paths by their components.\<close>

lemma rel_ok_segs:
  assumes "rel_ok f"
  shows "f = sep_join ''/'' (py_split CHR ''/'' f)" and "\<forall>x \<in> set (py_split CHR ''/'' f). seg_ok x"
    and "py_split CHR ''/'' f \<noteq> []"
  using assms sep_join_py_split [of "CHR ''/''" f] py_split_nonempty [of "CHR ''/''" f]
  by (simp_all add: rel_ok_def list_all_iff)

lemma root_ok_segs:
  assumes "root_ok root"
  shows "\<exists>rs. root = abs_of rs \<and> (\<forall>x \<in> set rs. seg_ok x)"
proof -
  from assms obtain rest where root: "root = CHR ''/'' # rest" and rest: "rest = [] \<or> rel_ok rest"
    by (auto simp: root_ok_def split: list.splits)
  show ?thesis
  proof (cases "rest = []")
    case True
    with root have "root = abs_of []" by (simp add: abs_of_def)
    then show ?thesis by auto
  next
    case False
    with rest have "rel_ok rest" by simp
    from rel_ok_segs [OF this] root have "root = abs_of (py_split CHR ''/'' rest)"
      "\<forall>x \<in> set (py_split CHR ''/'' rest). seg_ok x"
      by (simp_all add: abs_of_def)
    then show ?thesis by blast
  qed
qed

lemma join_root:
  assumes "\<forall>x \<in> set rs. seg_ok x" and "rel_ok f"
  shows "join (abs_of rs) f = abs_of (rs @ py_split CHR ''/'' f)"
proof -
  note f = rel_ok_segs [OF assms(2)]
  have "join (abs_of rs) (sep_join ''/'' (py_split CHR ''/'' f)) = abs_of (rs @ py_split CHR ''/'' f)"
    using assms(1) f(2,3) by (intro join_abs_of) (auto simp: seg_ok_def)
  with f(1) show ?thesis by simp
qed

lemma dirname_join_root:
  assumes "\<forall>x \<in> set rs. seg_ok x" and "rel_ok f"
  shows "dirname (join (abs_of rs) f) = abs_of (rs @ butlast (py_split CHR ''/'' f))"
proof -
  note f = rel_ok_segs [OF assms(2)]
  let ?b = "py_split CHR ''/'' f"
  have split: "rs @ ?b = (rs @ butlast ?b) @ [last ?b]" using f(3) by simp
  have "\<forall>x \<in> set ((rs @ butlast ?b) @ [last ?b]). x \<noteq> [] \<and> CHR ''/'' \<notin> set x"
    using assms(1) f(2) unfolding split [symmetric] by (auto simp: seg_ok_def)
  from dirname_abs_of [OF this] show ?thesis
    using join_root [OF assms] split by simp
qed

lemma forward_slashes_id: "CHR 0x5C \<notin> set s \<Longrightarrow> forward_slashes s = s"
  by (induction s) (auto simp: forward_slashes_def)

text \<open>
  The relative path that \<open>find_best_match\<close> computes for a candidate of a well-formed index
  leads back to the candidate when \<open>check_links\<close> resolves it from the same document.
\<close>

lemma candidate_round_trip:
  assumes "root_ok (ROOT_DIR cfg)" and "rel_ok src" and "rel_ok best"
    and "CHR ''#'' \<notin> set best" and "CHR 0x5C \<notin> set best"
  shows "\<exists>rel. relpath (cwd cfg) (join (ROOT_DIR cfg) best) (dirname (join (ROOT_DIR cfg) src)) = Inr rel
           \<and> forward_slashes rel = rel \<and> CHR ''#'' \<notin> set rel \<and> rel \<noteq> []
           \<and> link_full_path cfg src rel = join (ROOT_DIR cfg) best
           \<and> link_rel_path cfg src rel = Inr best"
proof -
  from root_ok_segs [OF assms(1)] obtain rs where root: "ROOT_DIR cfg = abs_of rs"
    and rs: "\<forall>x \<in> set rs. seg_ok x" by blast
  let ?b = "py_split CHR ''/'' best" and ?d = "butlast (py_split CHR ''/'' src)"
  note b = rel_ok_segs [OF assms(3)]
  have d: "\<forall>x \<in> set ?d. seg_ok x"
    using rel_ok_segs(2) [OF assms(2)] by (auto dest: in_set_butlastD)
  have jb: "join (ROOT_DIR cfg) best = abs_of (rs @ ?b)"
    using join_root [OF rs assms(3)] root by simp
  have dj: "dirname (join (ROOT_DIR cfg) src) = abs_of (rs @ ?d)"
    using dirname_join_root [OF rs assms(2)] root by simp
  have okp: "\<forall>x \<in> set (rs @ ?b). seg_ok x" and oks: "\<forall>x \<in> set (rs @ ?d). seg_ok x"
    using rs b(2) d by auto
  obtain rel where rel: "relpath (cwd cfg) (abs_of (rs @ ?b)) (abs_of (rs @ ?d)) = Inr rel"
    using relpath_abs_of [OF okp oks] by blast
  note rt = relpath_under_root [OF rs b(2) d rel]
  have chars: "\<Union> (set ` set ?b) \<subseteq> set best"
    using py_split_subset [of _ "CHR ''/''" best] by auto
  with rt(3) assms(4,5) have nh: "CHR ''#'' \<notin> set rel" and nb: "CHR 0x5C \<notin> set rel"
    by auto
  have full: "link_full_path cfg src rel = join (ROOT_DIR cfg) best"
    using rt(1) jb dj by (simp add: link_full_path_def)
  have "relpath (cwd cfg) (abs_of (rs @ ?b)) (abs_of rs) = Inr best"
    using relpath_abs_of [OF okp rs, of "cwd cfg"] b(1,3)
    by (simp add: common_len_prefix Let_def)
  with full jb root have lrp: "link_rel_path cfg src rel = Inr best"
    by (simp add: link_rel_path_def)
  from rel jb dj nh nb rt(2) full lrp show ?thesis
    by (auto simp: forward_slashes_id)
qed

lemma best_candidate_in_files:
  assumes "best_candidate cfg files t s = Some b"
  shows "b \<in> set files"
proof -
  from assms obtain m ms where m: "sort_key snd (candidates cfg files t s) = m # ms" and b: "b = fst m"
    by (auto simp: best_candidate_def split: list.splits)
  have "m \<in> set (sort_key snd (candidates cfg files t s))" using m by simp
  then have "m \<in> set (candidates cfg files t s)" by simp
  then have "fst m \<in> set files"
    by (auto simp: candidates_def scan_suffix_def scan_basename_def Let_def split: if_splits)
  with b show ?thesis by simp
qed

lemma hd_split_add_anchor:
  assumes "CHR ''#'' \<notin> set rel"
  shows "hd (py_split CHR ''#'' (add_anchor rel an)) = rel"
proof (cases an)
  case None
  with assms show ?thesis by (simp add: add_anchor_def py_split_no_sep)
next
  case (Some a)
  show ?thesis
  proof (cases "a = []")
    case True
    with Some assms show ?thesis by (simp add: add_anchor_def py_split_no_sep)
  next
    case False
    have "py_split CHR ''#'' (rel @ CHR ''#'' # a) = rel # py_split CHR ''#'' a"
      using assms by (rule py_split_append_sep)
    with Some False show ?thesis by (simp add: add_anchor_def)
  qed
qed

lemma add_anchor_nonempty: "rel \<noteq> [] \<Longrightarrow> add_anchor rel an \<noteq> []"
  by (simp add: add_anchor_def split: option.splits)

text \<open>
  A suggestion of the filename search, in a well-formed index: it is not empty, and
  resolved from the source document as \<open>check_links\<close> resolves a link it is a document of
  the index.
\<close>

lemma heuristic_suggestion_resolves:
  assumes "root_ok (ROOT_DIR cfg)" and "rel_ok src"
    and "\<forall>f \<in> set (all_files db). rel_ok f \<and> CHR ''#'' \<notin> set f \<and> CHR 0x5C \<notin> set f"
    and "custom_mappings db l = None"
    and "find_best_match cfg db l src = Inr (Some r)"
  shows "r \<noteq> [] \<and> (\<exists>f \<in> set (all_files db).
           link_full_path cfg src (hd (py_split CHR ''#'' r)) = join (ROOT_DIR cfg) f
           \<and> link_rel_path cfg src (hd (py_split CHR ''#'' r)) = Inr f)"
proof -
  obtain tf an where ta: "target_and_anchor l = (tf, an)" by (cases "target_and_anchor l")
  from assms(4,5) ta obtain b rel0 where b: "best_candidate cfg (all_files db) tf src = Some b"
    and rel0: "relpath (cwd cfg) (join (ROOT_DIR cfg) b) (dirname (join (ROOT_DIR cfg) src)) = Inr rel0"
    and r: "r = add_anchor (forward_slashes rel0) an"
    by (auto simp: find_best_match_def split: option.splits sum.splits)
  from best_candidate_in_files [OF b] have mem: "b \<in> set (all_files db)" .
  with assms(3) have okb: "rel_ok b" "CHR ''#'' \<notin> set b" "CHR 0x5C \<notin> set b" by auto
  from candidate_round_trip [OF assms(1,2) okb] rel0 have rt:
    "forward_slashes rel0 = rel0" "CHR ''#'' \<notin> set rel0" "rel0 \<noteq> []"
    "link_full_path cfg src rel0 = join (ROOT_DIR cfg) b"
    "link_rel_path cfg src rel0 = Inr b"
    by auto
  from r rt(1,2) have "hd (py_split CHR ''#'' r) = rel0"
    by (simp add: hd_split_add_anchor)
  moreover from r rt(1,3) have "r \<noteq> []" by (simp add: add_anchor_nonempty)
  ultimately show ?thesis using rt(4,5) mem by auto
qed




section \<open>Relative paths in simple_link_campaign.py\<close>
lemma norm_dots_relative:
  "\<forall>x \<in> set acc. seg_ok x \<Longrightarrow> n \<le> length acc \<Longrightarrow>
   foldl (norm_step False) acc (replicate n ''..'') = take (length acc - n) acc"
proof (induction n arbitrary: acc)
  case 0
  then show ?case by simp
next
  case (Suc n)
  then have ne: "acc \<noteq> []" by auto
  with Suc.prems(1) have l: "last acc \<noteq> ''..''" by (auto simp: seg_ok_def)
  from ne l have st: "norm_step False acc ''..'' = butlast acc"
    by (simp add: norm_step_def)
  have ok: "\<forall>x \<in> set (butlast acc). seg_ok x"
    using Suc.prems(1) by (auto dest: in_set_butlastD)
  have "n \<le> length (butlast acc)" using Suc.prems(2) by simp
  from Suc.IH [OF ok this] st show ?case
    by (simp add: butlast_conv_take)
qed
lemma normpath_relative:
  assumes "\<forall>x \<in> set zs. CHR ''/'' \<notin> set x" and "zs \<noteq> []" and "hd zs \<noteq> []"
    and "foldl (norm_step False) [] zs = c" and "c \<noteq> []" and "hd c \<noteq> []"
  shows "normpath (sep_join ''/'' zs) = sep_join ''/'' c"
proof -
  have ns: "\<not> startswith (sep_join ''/'' zs) ''/''"
    using assms(1-3) by (intro no_double_slash) simp
  then have n: "initial_slashes (sep_join ''/'' zs) = 0"
    by (simp add: initial_slashes_def)
  have ne: "sep_join ''/'' zs \<noteq> []" using assms(2,3) by (rule sep_join_nonempty)
  have sp: "py_split CHR ''/'' (sep_join ''/'' zs) = zs"
    using assms(1,2) by (intro py_split_sep_join) auto
  have "sep_join ''/'' c \<noteq> []" using assms(5,6) by (rule sep_join_nonempty)
  with n ne sp assms(4) show ?thesis
    by (simp add: normpath_def Let_def)
qed
lemma dirname_relative:
  assumes "\<forall>x \<in> set (d @ [y]). x \<noteq> [] \<and> CHR ''/'' \<notin> set x"
  shows "dirname (sep_join ''/'' (d @ [y])) = sep_join ''/'' d"
proof -
  have y: "CHR ''/'' \<notin> set y" using assms by simp
  show ?thesis
  proof (cases "d = []")
    case True
    have "dropWhile (\<lambda>c. c \<noteq> CHR ''/'') (rev y) = []"
      using y by (auto simp: dropWhile_eq_Nil_conv)
    with True show ?thesis by (simp add: dirname_def)
  next
    case False
    let ?j = "sep_join ''/'' d"
    from False assms have ld: "last d \<noteq> []" "CHR ''/'' \<notin> set (last d)" by auto
    from last_sep_join [OF False ld(1)] have j: "?j \<noteq> []" "last ?j = last (last d)" by auto
    with ld have lj: "last ?j \<noteq> CHR ''/''" by (metis last_in_set)
    have p: "sep_join ''/'' (d @ [y]) = ?j @ ''/'' @ y"
      using False by (simp add: sep_join_append)
    have dw: "dropWhile (\<lambda>c. c \<noteq> CHR ''/'') (rev y @ ''/'' @ rev ?j) = ''/'' @ rev ?j"
      using y by (subst dropWhile_append2) auto
    have hd: "rev (dropWhile (\<lambda>c. c \<noteq> CHR ''/'') (rev (sep_join ''/'' (d @ [y])))) = ?j @ ''/''"
      using dw by (simp add: p)
    have ne: "?j @ ''/'' \<noteq> replicate (length (?j @ ''/'')) CHR ''/''"
    proof
      assume "?j @ ''/'' = replicate (length (?j @ ''/'')) CHR ''/''"
      then have "set (?j @ ''/'') \<subseteq> {CHR ''/''}"
        by (metis set_replicate_conv_if empty_subsetI subset_refl)
      moreover have "last ?j \<in> set ?j" using j(1) by simp
      ultimately show False using lj by auto
    qed
    have "rev ?j \<noteq> []" using j(1) by simp
    then obtain c cs where rj: "rev ?j = c # cs" by (cases "rev ?j") auto
    with j(1) have "c = last ?j" by (metis last_rev list.sel(1) rev_rev_ident hd_rev)
    with lj have c: "c \<noteq> CHR ''/''" by simp
    have rs: "rstrip_sep (?j @ ''/'') = ?j"
      using c rj by (simp add: rstrip_sep_def)
    show ?thesis
      unfolding dirname_def Let_def hd using ne rs j(1) by simp
  qed
qed

lemma abs_list_relative:
  assumes w: "\<forall>x \<in> set w. seg_ok x" and d: "\<forall>x \<in> set d. seg_ok x"
  shows "abs_list (abs_of w) (sep_join ''/'' d) = w @ d"
proof (cases "d = []")
  case True
  have plain: "\<forall>x \<in> set w. CHR ''/'' \<notin> set x" and ne: "\<forall>x \<in> set w. x \<noteq> []"
    using w by (simp_all add: seg_ok_def)
  have "normpath (join (abs_of w) []) = abs_of w"
  proof (cases "w = []")
    case True
    have "normpath ''/'' = ''/''" by code_simp
    with True show ?thesis by (simp add: join_def abs_of_def)
  next
    case False
    with plain ne have lw: "last w \<noteq> []" "CHR ''/'' \<notin> set (last w)" by simp_all
    from last_sep_join [OF False lw(1)] have sj: "sep_join ''/'' w \<noteq> []"
      "last (sep_join ''/'' w) = last (last w)" by simp_all
    have "last (last w) \<in> set (last w)" using lw(1) by simp
    with lw(2) have "last (last w) \<noteq> CHR ''/''" by auto
    with sj have "last (abs_of w) \<noteq> CHR ''/''"
      by (simp add: abs_of_def)
    then have "\<not> endswith (abs_of w) ''/''" by (auto simp: suffix_def)
    then have j: "join (abs_of w) [] = abs_of (w @ [[]])"
      using False by (simp add: join_def abs_of_def sep_join_append)
    have hw: "hd w \<noteq> []" using False ne by simp
    have "normpath (abs_of (w @ [[]])) = abs_of (foldl (norm_step True) [] (w @ [[]]))"
      using plain False hw by (intro normpath_abs_of) (auto simp: hd_append)
    also have "foldl (norm_step True) [] (w @ [[]]) = w"
      using norm_names [OF w, of True "[]"] by (simp add: norm_skip_empty)
    finally show ?thesis using j by simp
  qed
  then have a: "abspath (abs_of w) [] = abs_of w" by (simp add: abspath_def)
  have fw: "filter (\<lambda>x. x \<noteq> []) w = w" using w by (simp add: seg_ok_def)
  have "abs_list (abs_of w) [] = filter (\<lambda>x. x \<noteq> []) (py_split CHR ''/'' (abs_of w))"
    by (simp only: abs_list_def a)
  also have "\<dots> = w"
    using py_split_abs_of [OF plain] fw by simp
  finally show ?thesis using True by simp
next
  case False
  have "seg_ok (hd d)" using False d by simp
  then have hd: "hd d \<noteq> []" "CHR ''/'' \<notin> set (hd d)" by (simp_all add: seg_ok_def)
  have plain: "\<forall>x \<in> set w. x \<noteq> [] \<and> CHR ''/'' \<notin> set x" using w by (simp add: seg_ok_def)
  have ns: "\<not> startswith (sep_join ''/'' d) ''/''"
    using False hd by (intro no_double_slash) simp
  have "join (abs_of w) (sep_join ''/'' d) = abs_of (w @ d)"
    using join_abs_of [OF plain False hd] .
  with ns have "abspath (abs_of w) (sep_join ''/'' d) = normpath (abs_of (w @ d))"
    by (simp add: abspath_def)
  also have "\<dots> = abs_of (w @ d)"
    using w d by (intro normpath_abs_of_names) auto
  finally have a: "abspath (abs_of w) (sep_join ''/'' d) = abs_of (w @ d)" .
  have "x \<noteq> [] \<and> CHR ''/'' \<notin> set x" if "seg_ok x" for x
    using that by (simp add: seg_ok_def)
  with w d have okwd: "\<forall>x \<in> set (w @ d). x \<noteq> [] \<and> CHR ''/'' \<notin> set x"
    by auto
  have "abs_list (abs_of w) (sep_join ''/'' d) = filter (\<lambda>x. x \<noteq> []) (py_split CHR ''/'' (abs_of (w @ d)))"
    by (simp only: abs_list_def a)
  also have "py_split CHR ''/'' (abs_of (w @ d)) = [] # (w @ d)"
    using py_split_abs_of [of "w @ d"] okwd False by simp
  also have "filter (\<lambda>x. x \<noteq> []) ([] # (w @ d)) = w @ d"
    using okwd by simp
  finally show ?thesis .
qed

lemma join_relative:
  assumes "\<forall>x \<in> set d. x \<noteq> [] \<and> CHR ''/'' \<notin> set x" and "d \<noteq> []"
    and "rs \<noteq> []" and "hd rs \<noteq> []" and "CHR ''/'' \<notin> set (hd rs)"
  shows "join (sep_join ''/'' d) (sep_join ''/'' rs) = sep_join ''/'' (d @ rs)"
proof -
  have b: "\<not> startswith (sep_join ''/'' rs) ''/''"
    using assms(3-5) by (intro no_double_slash) simp
  from assms(1,2) have ld: "last d \<noteq> []" "CHR ''/'' \<notin> set (last d)" by auto
  from last_sep_join [OF assms(2) ld(1)] have sj: "sep_join ''/'' d \<noteq> []"
    "last (sep_join ''/'' d) = last (last d)" by simp_all
  have "last (last d) \<in> set (last d)" using ld(1) by simp
  with ld(2) have "last (last d) \<noteq> CHR ''/''" by auto
  with sj have "\<not> endswith (sep_join ''/'' d) ''/''"
    by (auto simp: suffix_def)
  with b sj(1) assms(2,3) show ?thesis
    by (simp add: join_def sep_join_append)
qed

text \<open>The round trip for the relative paths of simple_link_campaign.py.\<close>

lemma relpath_relative:
  assumes w: "\<forall>x \<in> set w. seg_ok x" and b: "\<forall>x \<in> set b. seg_ok x" and d: "\<forall>x \<in> set d. seg_ok x"
    and bne: "b \<noteq> []"
  shows "\<exists>rel. relpath (abs_of w) (sep_join ''/'' b) (sep_join ''/'' d) = Inr rel
           \<and> rel \<noteq> [] \<and> normpath (join (sep_join ''/'' d) rel) = sep_join ''/'' b"
proof -
  define j where "j = common_len d b"
  define rl where "rl = replicate (length d - j) ''..'' @ drop j b"
  have plain: "x \<noteq> [] \<and> CHR ''/'' \<notin> set x" if "seg_ok x" for x
    using that by (simp add: seg_ok_def)
  have jle: "j \<le> length d" "j \<le> length b"
    using common_len_le [of d b] by (simp_all add: j_def)
  have hb: "hd b \<noteq> []" using bne b plain by simp
  have pne: "sep_join ''/'' b \<noteq> []" using bne hb by (rule sep_join_nonempty)
  have sl: "abs_list (abs_of w) (sep_join ''/'' d) = w @ d"
    and pl: "abs_list (abs_of w) (sep_join ''/'' b) = w @ b"
    using abs_list_relative [OF w] b d by simp_all
  have rl_eq: "replicate (length (w @ d) - common_len (w @ d) (w @ b)) ''..''
          @ drop (common_len (w @ d) (w @ b)) (w @ b) = rl"
    by (simp add: common_len_append j_def rl_def)
  have rel: "relpath (abs_of w) (sep_join ''/'' b) (sep_join ''/'' d)
               = Inr (if rl = [] then ''.'' else sep_join ''/'' rl)"
    unfolding relpath_def sl pl Let_def rl_eq using pne by simp
  have ok_rl: "\<forall>x \<in> set rl. x \<noteq> [] \<and> CHR ''/'' \<notin> set x"
  proof
    fix x assume "x \<in> set rl"
    then have "x = ''..'' \<or> x \<in> set b"
      by (auto simp: rl_def dest: in_set_dropD)
    then show "x \<noteq> [] \<and> CHR ''/'' \<notin> set x"
      using b plain by auto
  qed
  have okd: "\<forall>x \<in> set d. x \<noteq> [] \<and> CHR ''/'' \<notin> set x" using d plain by blast
  have tk: "take j d = take j b" using common_len_take [of d b] by (simp add: j_def)
  have fold_d: "foldl (norm_step False) [] d = d"
    using norm_names [OF d, of False "[]"] by simp
  let ?rel = "if rl = [] then ''.'' else sep_join ''/'' rl"
  have nonempty: "?rel \<noteq> []"
  proof (cases "rl = []")
    case True
    then show ?thesis by simp
  next
    case False
    with ok_rl have "sep_join ''/'' rl \<noteq> []" by (intro sep_join_nonempty) auto
    with False show ?thesis by simp
  qed
  have trip: "normpath (join (sep_join ''/'' d) ?rel) = sep_join ''/'' b"
  proof (cases "d = []")
    case True
    then have "rl = b" by (simp add: rl_def j_def)
    have ns: "\<not> startswith (sep_join ''/'' b) ''/''"
      using bne hb b plain by (intro no_double_slash) simp
    have "foldl (norm_step False) [] b = b"
      using norm_names [OF b, of False "[]"] by simp
    then have "normpath (sep_join ''/'' b) = sep_join ''/'' b"
      using b plain bne hb by (intro normpath_relative) auto
    with True \<open>rl = b\<close> bne ns show ?thesis by (simp add: join_def)
  next
    case dne: False
    show ?thesis
    proof (cases "rl = []")
      case True
      then have "length d = j" "length b = j" using jle by (simp_all add: rl_def)
      with tk have db: "d = b" by simp
      have "join (sep_join ''/'' d) ''.'' = sep_join ''/'' (d @ [''.''])"
        using join_relative [OF okd dne, of "[''.'']"] by simp
      moreover have "normpath (sep_join ''/'' (d @ [''.''])) = sep_join ''/'' d"
      proof (rule normpath_relative)
        show "\<forall>x \<in> set (d @ [''.'']). CHR ''/'' \<notin> set x" using okd by auto
        show "d @ [''.''] \<noteq> []" by simp
        show "hd (d @ [''.'']) \<noteq> []" using okd dne by (simp add: hd_append)
        show "foldl (norm_step False) [] (d @ [''.'']) = d"
          using fold_d by (simp add: norm_skip_dot)
        show "d \<noteq> []" by (rule dne)
        show "hd d \<noteq> []" using okd dne by simp
      qed
      ultimately show ?thesis using True db by simp
    next
      case False
      then have hd_rl: "hd rl \<noteq> []" "CHR ''/'' \<notin> set (hd rl)" using ok_rl by auto
      have "join (sep_join ''/'' d) (sep_join ''/'' rl) = sep_join ''/'' (d @ rl)"
        using join_relative [OF okd dne False hd_rl] .
      moreover have "normpath (sep_join ''/'' (d @ rl)) = sep_join ''/'' b"
      proof (rule normpath_relative)
        show "\<forall>x \<in> set (d @ rl). CHR ''/'' \<notin> set x" using okd ok_rl by auto
        show "d @ rl \<noteq> []" using dne by simp
        show "hd (d @ rl) \<noteq> []" using okd dne by (simp add: hd_append)
        have "foldl (norm_step False) d (replicate (length d - j) ''..'') = take j d"
          using norm_dots_relative [OF d, of "length d - j"] jle by simp
        moreover have "\<forall>x \<in> set (drop j b). seg_ok x" using b by (auto dest: in_set_dropD)
        then have "foldl (norm_step False) (take j d) (drop j b) = take j d @ drop j b"
          by (rule norm_names)
        ultimately show "foldl (norm_step False) [] (d @ rl) = b"
          using fold_d tk by (simp add: rl_def)
        show "b \<noteq> []" by (rule bne)
        show "hd b \<noteq> []" by (rule hb)
      qed
      ultimately show ?thesis using False by simp
    qed
  qed
  from rel nonempty trip show ?thesis by blast
qed

text \<open>
  A suggestion of the filename search of simple_link_campaign.py, in a well-formed index:
  resolved from the source document as \<open>check_links_in_file\<close> resolves a link, it is a
  document of the index.
\<close>

lemma simple_suggestion_resolves:
  assumes "root_ok (cwd cfg)" and "rel_ok src" and "\<forall>f \<in> set files. rel_ok f"
    and "mappings l = None"
    and "find_best_match_simple cfg mappings files l src = Some r"
  shows "r \<noteq> [] \<and> normpath (join (dirname src) r) \<in> set files"
proof -
  define matches where "matches =
     (if filter (\<lambda>file_path. basename file_path = basename l) files = []
      then filter (\<lambda>file_path. lower (basename file_path) = lower (basename l)) files
      else filter (\<lambda>file_path. basename file_path = basename l) files)"
  from assms(4,5) obtain best rest where
    srt: "sort_key (\<lambda>m. - int (similarity_score (dirname src) m)) matches = best # rest"
    and res: "(case relpath (cwd cfg) best (dirname src) of Inl e \<Rightarrow> Some best | Inr rel_path \<Rightarrow> Some rel_path) = Some r"
    by (auto simp: find_best_match_simple_def Let_def matches_def split: list.splits)
  have "best \<in> set (sort_key (\<lambda>m. - int (similarity_score (dirname src) m)) matches)"
    using srt by simp
  then have "best \<in> set matches" by simp
  then have mem: "best \<in> set files" by (auto simp: matches_def split: if_splits)
  with assms(3) have okb: "rel_ok best" by simp
  from root_ok_segs [OF assms(1)] obtain w where wd: "cwd cfg = abs_of w"
    and w: "\<forall>x \<in> set w. seg_ok x" by blast
  note b = rel_ok_segs [OF okb]
  note s = rel_ok_segs [OF assms(2)]
  let ?d = "butlast (py_split CHR ''/'' src)"
  have d: "\<forall>x \<in> set ?d. seg_ok x" using s(2) by (auto dest: in_set_butlastD)
  have "\<forall>x \<in> set (?d @ [last (py_split CHR ''/'' src)]). x \<noteq> [] \<and> CHR ''/'' \<notin> set x"
    using s(2,3) by (simp add: seg_ok_def)
  from dirname_relative [OF this] s(1,3) have dn: "dirname src = sep_join ''/'' ?d"
    by simp
  from relpath_relative [OF w b(2) d b(3)] obtain rel where
    rel: "relpath (abs_of w) (sep_join ''/'' (py_split CHR ''/'' best)) (sep_join ''/'' ?d) = Inr rel"
    "rel \<noteq> []" "normpath (join (sep_join ''/'' ?d) rel) = sep_join ''/'' (py_split CHR ''/'' best)"
    by blast
  with b(1) dn wd have "relpath (cwd cfg) best (dirname src) = Inr rel"
    "normpath (join (dirname src) rel) = best"
    by simp_all
  with res rel(2) mem show ?thesis by simp
qed

text \<open>
  C1 (counterexample). The override table maps \<^verbatim>\<open>old.md\<close> to \<^verbatim>\<open>new.md\<close>; the index holds
  \<^verbatim>\<open>a.md\<close> only. Both resolvers return the suggestion \<^verbatim>\<open>new.md\<close> for the broken link of
  \<^verbatim>\<open>a.md\<close>; resolved from \<^verbatim>\<open>a.md\<close> it is \<^verbatim>\<open>new.md\<close> under the root, which is no document of the
  index.
\<close>

theorem override_target_counterexample:
  "find_best_match cfg_ex (new_database [''a.md''] override_ex) ''old.md'' ''a.md'' = Inr (Some ''new.md'')
   \<and> find_best_match_simple cfg_ex override_ex [''a.md''] ''old.md'' ''a.md'' = Some ''new.md''
   \<and> link_rel_path cfg_ex ''a.md'' (hd (py_split CHR ''#'' ''new.md'')) = Inr ''new.md''
   \<and> ''new.md'' \<notin> set [''a.md'']"
proof (intro conjI)
  show "find_best_match cfg_ex (new_database [''a.md''] override_ex) ''old.md'' ''a.md'' = Inr (Some ''new.md'')"
    by code_simp
  show "find_best_match_simple cfg_ex override_ex [''a.md''] ''old.md'' ''a.md'' = Some ''new.md''"
    by code_simp
  show "link_rel_path cfg_ex ''a.md'' (hd (py_split CHR ''#'' ''new.md'')) = Inr ''new.md''"
    by code_simp
  show "''new.md'' \<notin> set [''a.md'']"
    by simp
qed

text \<open>
  C1 (amended). When the raw target has no override entry and the index is well-formed
  (relative paths of names, without \<^verbatim>\<open>#\<close> and without backslash, under an absolute root),
  a suggestion of the filename search is not empty and, resolved from the source document
  the way the same script resolves a link, is a document of the index: for link_campaign.py
  the root-relative path that \<open>check_links\<close> computes, for simple_link_campaign.py the
  path that \<open>check_links_in_file\<close> computes. A suggestion taken from the override table is
  returned as it is, without any check.
\<close>

theorem heuristic_suggestion_in_index:
  assumes "root_ok (ROOT_DIR cfg)" and "root_ok (cwd cfg)" and "rel_ok source_file"
    and "\<forall>f \<in> set (all_files db). rel_ok f \<and> CHR ''#'' \<notin> set f \<and> CHR 0x5C \<notin> set f"
    and "custom_mappings db broken_link = None"
  shows "(\<forall>s. find_best_match cfg db broken_link source_file = Inr (Some s)
            \<longrightarrow> s \<noteq> []
                \<and> (\<exists>f \<in> set (all_files db).
                      link_rel_path cfg source_file (hd (py_split CHR ''#'' s)) = Inr f))
       \<and> (\<forall>s. find_best_match_simple cfg (custom_mappings db) (all_files db) broken_link source_file
                 = Some s
            \<longrightarrow> s \<noteq> [] \<and> normpath (join (dirname source_file) s) \<in> set (all_files db))"
proof (rule conjI; intro allI impI)
  fix s
  assume "find_best_match cfg db broken_link source_file = Inr (Some s)"
  from heuristic_suggestion_resolves [OF assms(1,3,4,5) this]
  show "s \<noteq> [] \<and> (\<exists>f \<in> set (all_files db).
                      link_rel_path cfg source_file (hd (py_split CHR ''#'' s)) = Inr f)"
    by blast
next
  fix s
  assume r: "find_best_match_simple cfg (custom_mappings db) (all_files db) broken_link source_file = Some s"
  have ok: "\<forall>f \<in> set (all_files db). rel_ok f" using assms(4) by simp
  from simple_suggestion_resolves [OF assms(2,3) ok assms(5) r]
  show "s \<noteq> [] \<and> normpath (join (dirname source_file) s) \<in> set (all_files db)" .
qed

theorem heuristic_suggestion_in_index_witness:
  "root_ok (ROOT_DIR cfg_ex) \<and> root_ok (cwd cfg_ex) \<and> rel_ok ''a.md''
   \<and> list_all (\<lambda>f. rel_ok f \<and> CHR ''#'' \<notin> set f \<and> CHR 0x5C \<notin> set f) files_ex
   \<and> find_best_match cfg_ex (new_database files_ex Map.empty) ''setup.md'' ''a.md''
        = Inr (Some ''docs/setup.md'')
   \<and> find_best_match_simple cfg_ex Map.empty files_ex ''setup.md'' ''a.md'' = Some ''docs/setup.md''
   \<and> (\<exists>f \<in> set (all_files (new_database files_ex Map.empty)).
         link_rel_path cfg_ex ''a.md'' (hd (py_split CHR ''#'' ''docs/setup.md'')) = Inr f)
   \<and> normpath (join (dirname ''a.md'') ''docs/setup.md'')
        \<in> set (all_files (new_database files_ex Map.empty))"
proof -
  let ?db = "new_database files_ex Map.empty"
  have h1: "root_ok (ROOT_DIR cfg_ex)" by code_simp
  have h2: "root_ok (cwd cfg_ex)" by code_simp
  have h3: "rel_ok ''a.md''" by code_simp
  have l: "list_all (\<lambda>f. rel_ok f \<and> CHR ''#'' \<notin> set f \<and> CHR 0x5C \<notin> set f) files_ex"
    by code_simp
  then have h4: "\<forall>f \<in> set (all_files ?db). rel_ok f \<and> CHR ''#'' \<notin> set f \<and> CHR 0x5C \<notin> set f"
    by (simp add: list_all_iff new_database_def)
  have h5: "custom_mappings ?db ''setup.md'' = None" by (simp add: new_database_def)
  have e1: "find_best_match cfg_ex ?db ''setup.md'' ''a.md'' = Inr (Some ''docs/setup.md'')"
    by code_simp
  have e2: "find_best_match_simple cfg_ex Map.empty files_ex ''setup.md'' ''a.md'' = Some ''docs/setup.md''"
    by code_simp
  have m: "custom_mappings ?db = Map.empty" "all_files ?db = files_ex"
    by (simp_all add: new_database_def)
  note t = heuristic_suggestion_in_index [OF h1 h2 h3 h4 h5, unfolded m]
  from t e1 have c1: "\<exists>f \<in> set files_ex.
         link_rel_path cfg_ex ''a.md'' (hd (py_split CHR ''#'' ''docs/setup.md'')) = Inr f"
    by blast
  from t e2 have c2: "normpath (join (dirname ''a.md'') ''docs/setup.md'') \<in> set files_ex"
    by blast
  from h1 h2 h3 l e1 e2 c1 c2 show ?thesis by (simp add: m)
qed

text \<open>
  The two scans of simple_link_campaign.py: when some file has exactly the name of the
  target, the suggestion leads to such a file, and names that match only when case is
  ignored are not considered.
\<close>

lemma simple_exact_scan_first:
  assumes "mappings l = None" and "\<exists>f \<in> set files. basename f = basename l"
    and "find_best_match_simple cfg mappings files l s = Some r"
  shows "\<exists>f \<in> set files. basename f = basename l
           \<and> (relpath (cwd cfg) f (dirname s) = Inr r \<or> r = f)"
proof -
  let ?exact = "filter (\<lambda>file_path. basename file_path = basename l) files"
  from assms(2) have ne: "?exact \<noteq> []" by (auto simp: filter_empty_conv)
  with assms(1,3) obtain best rest where
    srt: "sort_key (\<lambda>m. - int (similarity_score (dirname s) m)) ?exact = best # rest"
    and res: "(case relpath (cwd cfg) best (dirname s) of Inl e \<Rightarrow> Some best | Inr rel_path \<Rightarrow> Some rel_path) = Some r"
    by (auto simp: find_best_match_simple_def Let_def split: list.splits)
  have "best \<in> set (sort_key (\<lambda>m. - int (similarity_score (dirname s) m)) ?exact)"
    using srt by simp
  then have "best \<in> set ?exact" by simp
  then have "best \<in> set files" "basename best = basename l" by simp_all
  moreover from res have "relpath (cwd cfg) best (dirname s) = Inr r \<or> r = best"
    by (auto split: sum.splits)
  ultimately show ?thesis by blast
qed

section \<open>The Rewriter against its specification\<close>

lemma re_search_sublist: "re_search pat s \<longleftrightarrow> sublist pat s"
  by (induction s) (simp_all add: sublist_Cons_right)

lemma re_sub_no_match:
  assumes "pat \<noteq> []" and "\<not> sublist pat s"
  shows "re_sub pat rep s = s"
  using assms(2)
proof (induction s)
  case Nil
  have "\<not> prefix pat []" using assms(1) by simp
  then show ?case
    by (subst re_sub.simps) (simp only: assms(1) if_False list.case)
next
  case (Cons x s)
  from Cons.prems have np: "\<not> prefix pat (x # s)" and ns: "\<not> sublist pat s"
    by (simp_all add: sublist_Cons_right)
  have "re_sub pat rep (x # s) = x # re_sub pat rep s"
    by (subst re_sub.simps) (simp only: assms(1) np if_False list.case)
  with Cons.IH [OF ns] show ?case by simp
qed

lemma re_sub_first_match:
  assumes "pat \<noteq> []" and "\<not> sublist pat (u @ butlast pat)"
  shows "re_sub pat rep (u @ pat @ v) = u @ rep @ re_sub pat rep v"
  using assms(2)
proof (induction u)
  case Nil
  have "re_sub pat rep (pat @ v) = rep @ re_sub pat rep (drop (length pat) (pat @ v))"
    by (subst re_sub.simps) (simp only: assms(1) if_False prefixI [OF refl] if_True)
  then show ?case by simp
next
  case (Cons x u)
  have np: "\<not> prefix pat (x # u @ pat @ v)"
  proof
    assume p: "prefix pat (x # u @ pat @ v)"
    let ?ys = "x # u @ butlast pat"
    have split: "x # u @ pat @ v = ?ys @ (last pat # v)"
      using assms(1) by simp
    have "0 < length pat" using assms(1) by simp
    then have len: "length pat \<le> length ?ys" by simp
    from p have "prefix pat (?ys @ (last pat # v))" by (simp only: split)
    then have "prefix pat ?ys \<or> (\<exists>us. pat = ?ys @ us \<and> prefix us (last pat # v))"
      by (simp only: prefix_append)
    then have "prefix pat ?ys"
    proof
      assume "prefix pat ?ys"
      then show ?thesis .
    next
      assume "\<exists>us. pat = ?ys @ us \<and> prefix us (last pat # v)"
      then obtain us where us: "pat = ?ys @ us" by blast
      have "length pat = length (?ys @ us)" by (rule arg_cong [OF us])
      then have "length pat = length ?ys + length us" by (simp only: length_append)
      with len have "length us = 0" by linarith
      then have "us = []" by simp
      then have "pat = ?ys" using us by (simp only: append_Nil2)
      then have "prefix pat ?ys = prefix ?ys ?ys" by (rule arg_cong)
      then show ?thesis by (simp only: prefix_order.order_refl)
    qed
    then have "sublist pat ((x # u) @ butlast pat)" by (simp add: prefix_imp_sublist)
    with Cons.prems show False by simp
  qed
  have "\<not> sublist pat (u @ butlast pat)"
    using Cons.prems by (simp add: sublist_Cons_right)
  from Cons.IH [OF this] have ih: "re_sub pat rep (u @ pat @ v) = u @ rep @ re_sub pat rep v" .
  have "re_sub pat rep (x # u @ pat @ v) = x # re_sub pat rep (u @ pat @ v)"
    by (subst re_sub.simps) (simp only: assms(1) np if_False list.case)
  with ih show ?case by simp
qed

text \<open>The loop body of \<open>fix_links\<close> is one step of the specification.\<close>

lemma fix_link_spec:
  assumes "fix_link li (c, db) = (c', db')"
  shows "\<exists>fx mn. spec_apply_fix (c, f, m) li = (c', f @ fx, m @ mn)
           \<and> fixed_links db' = fixed_links db @ fx \<and> manual_review db' = manual_review db @ mn
           \<and> mset fx + mset mn = {#li#}"
proof (cases "suggested_fix li")
  case None
  with assms have "c' = c" "fixed_links db' = fixed_links db"
    "manual_review db' = manual_review db @ [li]"
    by (auto simp: fix_link_def)
  with None show ?thesis
    by (intro exI [of _ "[]"] exI [of _ "[li]"]) (simp add: spec_apply_fix_def)
next
  case (Some sg)
  let ?old = "''['' @ linktext li @ '']('' @ link li @ '')''"
  let ?new = "''['' @ linktext li @ '']('' @ sg @ '')''"
  show ?thesis
  proof (cases "sg \<noteq> [] \<and> sublist ?old c")
    case True
    with assms Some have "c' = re_sub ?old ?new c" "fixed_links db' = fixed_links db @ [li]"
      "manual_review db' = manual_review db"
      by (auto simp: fix_link_def link_syntax_def re_search_sublist Let_def split: if_splits)
    with True Some show ?thesis
      by (intro exI [of _ "[li]"] exI [of _ "[]"]) (simp add: spec_apply_fix_def)
  next
    case False
    with assms Some have "c' = c" "fixed_links db' = fixed_links db"
      "manual_review db' = manual_review db @ [li]"
      by (auto simp: fix_link_def link_syntax_def re_search_sublist Let_def split: if_splits)
    with False Some show ?thesis
      by (intro exI [of _ "[]"] exI [of _ "[li]"]) (auto simp: spec_apply_fix_def)
  qed
qed

lemma fix_loop_spec:
  assumes "foldl (\<lambda>s x. fix_link x s) (c, db) ls = (c', db')"
  shows "\<exists>fx mn. foldl spec_apply_fix (c, f, m) ls = (c', f @ fx, m @ mn)
           \<and> fixed_links db' = fixed_links db @ fx \<and> manual_review db' = manual_review db @ mn
           \<and> mset fx + mset mn = mset ls"
  using assms
proof (induction ls arbitrary: c' db' rule: rev_induct)
  case Nil
  then show ?case by simp
next
  case (snoc li ls)
  obtain c1 db1 where mid: "foldl (\<lambda>s x. fix_link x s) (c, db) ls = (c1, db1)"
    by (cases "foldl (\<lambda>s x. fix_link x s) (c, db) ls")
  with snoc.prems have step: "fix_link li (c1, db1) = (c', db')" by simp
  from snoc.IH [OF mid] obtain fx mn where ih:
    "foldl spec_apply_fix (c, f, m) ls = (c1, f @ fx, m @ mn)"
    "fixed_links db1 = fixed_links db @ fx" "manual_review db1 = manual_review db @ mn"
    "mset fx + mset mn = mset ls"
    by blast
  from fix_link_spec [OF step, of "f @ fx" "m @ mn"] obtain fx1 mn1 where s:
    "spec_apply_fix (c1, f @ fx, m @ mn) li = (c', (f @ fx) @ fx1, (m @ mn) @ mn1)"
    "fixed_links db' = fixed_links db1 @ fx1" "manual_review db' = manual_review db1 @ mn1"
    "mset fx1 + mset mn1 = {#li#}"
    by blast
  have a: "foldl spec_apply_fix (c, f, m) (ls @ [li]) = (c', f @ fx @ fx1, m @ mn @ mn1)"
    using ih(1) s(1) by simp
  have b: "fixed_links db' = fixed_links db @ fx @ fx1" using ih(2) s(2) by simp
  have c: "manual_review db' = manual_review db @ mn @ mn1" using ih(3) s(3) by simp
  have "mset (fx @ fx1) + mset (mn @ mn1) = (mset fx + mset mn) + (mset fx1 + mset mn1)"
    by simp
  then have d: "mset (fx @ fx1) + mset (mn @ mn1) = mset (ls @ [li])"
    using ih(4) s(4) by simp
  from a b c d show ?case by blast
qed

end
